theory Spec2Isabelle
  imports Main "HOL-Library.AList"
begin

section \<open>The postgres backup pipeline (service/postgres/backup.go)\<close>

text \<open>
  The function \<^verbatim>\<open>Backup\<close> locks a package-level mutex, exports the connection
  parameters of the service binding into the process environment, starts the dump
  command, launches a goroutine that gzips the command's standard output and uploads it,
  waits for the command and returns. It is modelled as a small-step interleaving
  semantics: every call of \<^verbatim>\<open>Backup\<close> consists of three threads (the caller's
  goroutine, the upload goroutine of line 74 and the copy goroutine of line 83), a program
  point per source line that touches shared state, and a scheduler that picks which thread
  moves next. What the operating system, the dump process and the object store answer is
  an input of the call.
\<close>

subsection \<open>Data\<close>

text \<open>
  A value of the credentials map of a binding (\<^verbatim>\<open>map[string]interface{}\<close>): a string,
  or anything else (a number, a list, ...).
\<close>

datatype cred_value = CredString string | CredOther

text \<open>\<^verbatim>\<open>cfenv.Service\<close>, with the three fields \<^verbatim>\<open>Backup\<close> reads.\<close>

record Service =
  Name :: string
  Label :: string
  Credentials :: "string \<rightharpoonup> cred_value"

text \<open>
  \<^verbatim>\<open>(*Service).CredentialString\<close> of go-cfenv:
  \<^verbatim>\<open>credential, ok := s.Credentials[key].(string); return credential, ok\<close>.
  A missing key and a value that is not a string both give the empty string and false.
\<close>

definition CredentialString :: "Service \<Rightarrow> string \<Rightarrow> string \<times> bool" where
  "CredentialString s key =
     (case Credentials s key of
        Some (CredString v) \<Rightarrow> (v, True)
      | Some CredOther \<Rightarrow> ([], False)
      | None \<Rightarrow> ([], False))"

text \<open>Lines 28 to 32: the second component of every lookup is dropped.\<close>

definition host :: "Service \<Rightarrow> string" where
  "host b = fst (CredentialString b ''host'')"

definition port :: "Service \<Rightarrow> string" where
  "port b = fst (CredentialString b ''port'')"

definition database :: "Service \<Rightarrow> string" where
  "database b = fst (CredentialString b ''database'')"

definition username :: "Service \<Rightarrow> string" where
  "username b = fst (CredentialString b ''username'')"

definition password :: "Service \<Rightarrow> string" where
  "password b = fst (CredentialString b ''password'')"

text \<open>Lines 40 to 49: the dump command, built by successive \<^verbatim>\<open>append\<close>s.\<close>

definition command :: "Service \<Rightarrow> string list" where
  "command b =
     (let command0 = [];
          command1 =
            (if length (database b) > 0
             then ((command0 @ [''pg_dump'']) @ [database b]) @ [''-C'']
             else command0 @ [''pg_dumpall'']);
          command2 = command1 @ [''-c'']
      in command2 @ [''--no-password''])"

subsection \<open>Library functions used by the code\<close>

text \<open>
  \<^verbatim>\<open>fmt.Sprintf\<close>, for the verbs the code uses: \<^verbatim>\<open>%s\<close> and \<^verbatim>\<open>%v\<close>, applied to
  strings and to errors (an error is printed as its \<^verbatim>\<open>Error()\<close> text, so an operand is
  given as a string). An operand that is missing prints as \<^verbatim>\<open>%!v(MISSING)\<close>; no call
  of the code has one.
\<close>

fun Sprintf :: "string \<Rightarrow> string list \<Rightarrow> string" where
  "Sprintf [] args = []"
| "Sprintf [c] args = [c]"
| "Sprintf (c # v # fs) args =
     (if c = CHR ''%'' \<and> (v = CHR ''s'' \<or> v = CHR ''v'')
      then (case args of
              a # as \<Rightarrow> a @ Sprintf fs as
            | [] \<Rightarrow> ''%!'' @ [v] @ ''(MISSING)'' @ Sprintf fs [])
      else c # Sprintf (v # fs) args)"

text \<open>\<^verbatim>\<open>strings.Join\<close>.\<close>

fun Join :: "string list \<Rightarrow> string \<Rightarrow> string" where
  "Join [] sep = []"
| "Join [x] sep = x"
| "Join (x # y # xs) sep = x @ sep @ Join (y # xs) sep"

text \<open>
  \<^verbatim>\<open>strings.TrimRight(s, cutset)\<close>: \<^verbatim>\<open>s\<close> without its longest suffix made of
  characters of \<^verbatim>\<open>cutset\<close>. The code's cutset is ASCII, for which Go works on bytes.
\<close>

definition TrimRight :: "string \<Rightarrow> string \<Rightarrow> string" where
  "TrimRight s cutset = rev (dropWhile (\<lambda>c. c \<in> set cutset) (rev s))"

text \<open>The cutset of line 102: carriage return and line feed.\<close>

definition crlf :: string where
  "crlf = [CHR 0x0D, CHR 0x0A]"

subsection \<open>What the outside world answers\<close>

text \<open>A Go \<^verbatim>\<open>error\<close> value is represented by its \<^verbatim>\<open>Error()\<close> text.\<close>

type_synonym go_error = string

text \<open>The two errors a context can report, and their texts.\<close>

datatype context_error = context_Canceled | context_DeadlineExceeded

fun context_text :: "context_error \<Rightarrow> string" where
  "context_text context_Canceled = ''context canceled''"
| "context_text context_DeadlineExceeded = ''context deadline exceeded''"

text \<open>\<^verbatim>\<open>%v\<close> of an \<^verbatim>\<open>error\<close> that may be nil.\<close>

fun verb_v :: "context_error option \<Rightarrow> string" where
  "verb_v None = ''<nil>''"
| "verb_v (Some e) = context_text e"

text \<open>
  The answers one call of \<^verbatim>\<open>Backup\<close> gets from outside: the results of
  \<^verbatim>\<open>cmd.StdoutPipe\<close> (line 55), \<^verbatim>\<open>cmd.Start\<close> (line 66) and \<^verbatim>\<open>cmd.Wait\<close>
  (line 96), what the dump process had written to its standard error when
  \<^verbatim>\<open>cmd.Wait\<close> returned, what \<^verbatim>\<open>ctx.Err()\<close> gives on lines 98 and 99 (a context's
  error never changes once it is set), and the results of \<^verbatim>\<open>io.Copy\<close> (line 86) and
  \<^verbatim>\<open>s3.UploadWithContext\<close> (line 90).
\<close>

record outcome =
  pipe_err :: "go_error option"
  start_err :: "go_error option"
  wait_err :: "go_error option"
  errBuf :: string
  ctx_Err :: "context_error option"
  copy_err :: "go_error option"
  upload_err :: "go_error option"

text \<open>The arguments of one call, with the answers it will get.\<close>

record request =
  binding :: Service
  filename :: string
  world :: outcome

subsection \<open>Results\<close>

text \<open>
  The error \<^verbatim>\<open>Backup\<close> returns, tagged by the \<^verbatim>\<open>return\<close> statement it comes from
  and carrying the text of the returned Go error: line 58 (the error of
  \<^verbatim>\<open>StdoutPipe\<close>), line 68 (the error of \<^verbatim>\<open>Start\<close>), line 99, line 103, and
  line 107 (the variable \<^verbatim>\<open>err\<close> of line 55, which only the upload goroutine
  assigns afterwards). A nil result is \<open>None\<close>.
\<close>

datatype backup_error =
    PipeError go_error
  | InvocationError go_error
  | DeadlineExceeded go_error
  | DumpFailed go_error
  | UploadFailed go_error

fun Error :: "backup_error \<Rightarrow> string" where
  "Error (PipeError e) = e"
| "Error (InvocationError e) = e"
| "Error (DeadlineExceeded e) = e"
| "Error (DumpFailed e) = e"
| "Error (UploadFailed e) = e"

subsection \<open>Program points\<close>

text \<open>
  The caller's goroutine. \<open>Ln\<close> is "about to execute line n"; a point inside an
  \<^verbatim>\<open>if err := ...; err != nil\<close> block carries that block's \<^verbatim>\<open>err\<close>. \<open>D73\<close>,
  \<open>D60\<close> and \<open>D26\<close> are the deferred calls registered on lines 73, 60 and 26, run in
  that order after a \<^verbatim>\<open>return\<close> statement has set the result.
\<close>

datatype main_pc =
    L25 | L34 | L35 | L36 | L37 | L51 | L55 | L57 | L58
  | L66 | L67 go_error | L68 go_error | L74 | L96
  | L98 go_error | L99 | L102 go_error | L103 go_error
  | L106 | L107 | D73 | D60 | D26 | Returned

text \<open>
  The goroutine of lines 74 to 94: \<open>C90\<close> is "inside \<^verbatim>\<open>UploadWithContext\<close>",
  \<open>C75\<close> the deferred \<^verbatim>\<open>uploadWait.Done()\<close>.
\<close>

datatype chain_pc = C_idle | C76 | C79 | C83 | C89 | C90 | C91 | C75 | C_done

text \<open>The goroutine of lines 83 to 87, with its two deferred closes.\<close>

datatype copy_pc = P_idle | P86 | P85 | P84 | P_done

subsection \<open>State\<close>

text \<open>The two header fields of \<^verbatim>\<open>gzip.Writer\<close> the code sets; a time is a clock reading.\<close>

record Header =
  gz_Name :: string
  gz_ModTime :: nat

text \<open>
  The variables of one call: its arguments, the program points of its three goroutines,
  the variable \<^verbatim>\<open>err\<close> of line 55 (shared with the upload goroutine), the result once
  a \<^verbatim>\<open>return\<close> statement has run, the counter of \<^verbatim>\<open>uploadWait\<close>, whether
  \<^verbatim>\<open>uploadCtx\<close> is cancelled, whether \<^verbatim>\<open>outPipe\<close> is closed, and the gzip writer.
\<close>

record call =
  req :: request
  mpc :: main_pc
  cpc :: chain_pc
  ppc :: copy_pc
  err :: "go_error option"
  ret :: "backup_error option option"
  uploadWait :: int
  uploadCtx_done :: bool
  outPipe_closed :: bool
  gw :: "Header option"

text \<open>What a step does that something outside the call can see.\<close>

datatype level = DebugLevel | ErrorLevel

datatype event =
    Locked
  | Setenv string string
  | Logged level string
  | Started "string list" "(string \<times> string) list"
  | Waited
  | WaitGroupAdd
  | WaitGroupWaited
  | NewWriter Header
  | UploadCalled string
  | ChainFinished
  | BackupReturned "backup_error option"

text \<open>
  What all calls share: \<^verbatim>\<open>pgMutex\<close> (free, or locked by the call with that index),
  the environment of the host process (a list of variables with their values, the first
  entry of a variable counting), the clock, and the log of events, each with the clock reading and the
  index of the call it belongs to.
\<close>

record globals =
  pgMutex :: "nat option"
  environ :: "(string \<times> string) list"
  clock :: nat
  trace :: "(nat \<times> nat \<times> event) list"

record state =
  calls :: "call list"
  glob :: globals

definition emit :: "nat \<Rightarrow> event \<Rightarrow> globals \<Rightarrow> globals" where
  "emit i ev g = g\<lparr>trace := trace g @ [(clock g, i, ev)]\<rparr>"

text \<open>
  \<^verbatim>\<open>os.Setenv\<close>, whose error the code ignores: a value with a NUL byte is refused
  and leaves the environment as it was (the four keys of the code are always accepted).
\<close>

definition os_Setenv :: "nat \<Rightarrow> string \<Rightarrow> string \<Rightarrow> globals \<Rightarrow> globals" where
  "os_Setenv i key val g =
     (if CHR 0x00 \<in> set val then g
      else emit i (Setenv key val) (g\<lparr>environ := AList.update key val (environ g)\<rparr>))"

definition logf :: "nat \<Rightarrow> level \<Rightarrow> string \<Rightarrow> globals \<Rightarrow> globals" where
  "logf i l msg g = emit i (Logged l msg) g"

text \<open>Line 89.\<close>

definition objectPath :: "request \<Rightarrow> string" where
  "objectPath r = Sprintf ''%s/%s/%s'' [Label (binding r), Name (binding r), filename r]"

subsection \<open>Steps\<close>

text \<open>
  One step of the caller's goroutine of call \<open>i\<close>. A step that cannot move yet
  (\<^verbatim>\<open>Lock\<close> on a locked mutex, \<^verbatim>\<open>uploadWait.Wait()\<close> on a counter that is not zero)
  leaves everything as it is.
\<close>

fun main_at :: "nat \<Rightarrow> main_pc \<Rightarrow> call \<Rightarrow> globals \<Rightarrow> call \<times> globals" where
  "main_at i L25 c g =
     (if pgMutex g = None then (c\<lparr>mpc := L34\<rparr>, emit i Locked (g\<lparr>pgMutex := Some i\<rparr>))
      else (c, g))"
| "main_at i L34 c g = (c\<lparr>mpc := L35\<rparr>, os_Setenv i ''PGUSER'' (username (binding (req c))) g)"
| "main_at i L35 c g = (c\<lparr>mpc := L36\<rparr>, os_Setenv i ''PGPASSWORD'' (password (binding (req c))) g)"
| "main_at i L36 c g = (c\<lparr>mpc := L37\<rparr>, os_Setenv i ''PGHOST'' (host (binding (req c))) g)"
| "main_at i L37 c g = (c\<lparr>mpc := L51\<rparr>, os_Setenv i ''PGPORT'' (port (binding (req c))) g)"
| "main_at i L51 c g =
     (c\<lparr>mpc := L55\<rparr>,
      logf i DebugLevel
        (Sprintf ''executing postgres backup command: %v'' [Join (command (binding (req c))) '' '']) g)"
| "main_at i L55 c g =
     (case pipe_err (world (req c)) of
        None \<Rightarrow> (c\<lparr>err := None, mpc := L66\<rparr>, g)
      | Some e \<Rightarrow> (c\<lparr>err := Some e, mpc := L57\<rparr>, g))"
| "main_at i L57 c g =
     (c\<lparr>mpc := L58\<rparr>,
      logf i ErrorLevel
        (Sprintf ''could not get stdout pipe for postgres dump: %v''
           [case err c of None \<Rightarrow> ''<nil>'' | Some e \<Rightarrow> e]) g)"
| "main_at i L58 c g = (c\<lparr>ret := Some (map_option PipeError (err c)), mpc := D26\<rparr>, g)"
| "main_at i L66 c g =
     (case start_err (world (req c)) of
        None \<Rightarrow> (c\<lparr>mpc := L74\<rparr>, emit i (Started (command (binding (req c))) (environ g)) g)
      | Some e \<Rightarrow> (c\<lparr>mpc := L67 e\<rparr>, g))"
| "main_at i (L67 e) c g =
     (c\<lparr>mpc := L68 e\<rparr>, logf i ErrorLevel (Sprintf ''could not run postgres dump: %v'' [e]) g)"
| "main_at i (L68 e) c g = (c\<lparr>ret := Some (Some (InvocationError e)), mpc := D60\<rparr>, g)"
| "main_at i L74 c g = (c\<lparr>cpc := C76, mpc := L96\<rparr>, g)"
| "main_at i L96 c g =
     (case wait_err (world (req c)) of
        None \<Rightarrow> (c\<lparr>mpc := L106\<rparr>, emit i Waited g)
      | Some e \<Rightarrow> (c\<lparr>mpc := L98 e\<rparr>, emit i Waited g))"
| "main_at i (L98 e) c g =
     (if ctx_Err (world (req c)) = Some context_DeadlineExceeded then (c\<lparr>mpc := L99\<rparr>, g)
      else (c\<lparr>mpc := L102 e\<rparr>, g))"
| "main_at i L99 c g =
     (c\<lparr>ret := Some (Some (DeadlineExceeded
              (Sprintf ''postgres dump: timeout: %v'' [verb_v (ctx_Err (world (req c)))]))),
        mpc := D73\<rparr>, g)"
| "main_at i (L102 e) c g =
     (c\<lparr>mpc := L103 e\<rparr>, logf i ErrorLevel (TrimRight (errBuf (world (req c))) crlf) g)"
| "main_at i (L103 e) c g =
     (c\<lparr>ret := Some (Some (DumpFailed (Sprintf ''postgres dump: %v'' [e]))), mpc := D73\<rparr>, g)"
| "main_at i L106 c g =
     (if uploadWait c = 0 then (c\<lparr>mpc := L107\<rparr>, emit i WaitGroupWaited g) else (c, g))"
| "main_at i L107 c g = (c\<lparr>ret := Some (map_option UploadFailed (err c)), mpc := D73\<rparr>, g)"
| "main_at i D73 c g = (c\<lparr>uploadCtx_done := True, mpc := D60\<rparr>, g)"
| "main_at i D60 c g = (c\<lparr>outPipe_closed := True, mpc := D26\<rparr>, g)"
| "main_at i D26 c g =
     (c\<lparr>mpc := Returned\<rparr>,
      emit i (BackupReturned (case ret c of None \<Rightarrow> None | Some r \<Rightarrow> r)) (g\<lparr>pgMutex := None\<rparr>))"
| "main_at i Returned c g = (c, g)"

text \<open>
  One step of the upload goroutine. Line 76 registers with the wait group only once the
  goroutine runs; lines 79 to 82 create the pipe and the gzip writer and set its header;
  the upload may return at any moment after it was called.
\<close>

fun chain_at :: "nat \<Rightarrow> chain_pc \<Rightarrow> call \<Rightarrow> globals \<Rightarrow> call \<times> globals" where
  "chain_at i C_idle c g = (c, g)"
| "chain_at i C76 c g = (c\<lparr>uploadWait := uploadWait c + 1, cpc := C79\<rparr>, emit i WaitGroupAdd g)"
| "chain_at i C79 c g =
     (let h = \<lparr>gz_Name = filename (req c), gz_ModTime = clock g\<rparr>
      in (c\<lparr>gw := Some h, cpc := C83\<rparr>, emit i (NewWriter h) g))"
| "chain_at i C83 c g = (c\<lparr>ppc := P86, cpc := C89\<rparr>, g)"
| "chain_at i C89 c g = (c\<lparr>cpc := C90\<rparr>, emit i (UploadCalled (objectPath (req c))) g)"
| "chain_at i C90 c g = (c\<lparr>err := upload_err (world (req c)), cpc := C91\<rparr>, g)"
| "chain_at i C91 c g =
     (case err c of
        None \<Rightarrow> (c\<lparr>cpc := C75\<rparr>, g)
      | Some e \<Rightarrow>
          (c\<lparr>cpc := C75\<rparr>,
           logf i ErrorLevel
             (Sprintf ''could not upload service backup [%s] to S3: %v'' [Name (binding (req c)), e]) g))"
| "chain_at i C75 c g = (c\<lparr>uploadWait := uploadWait c - 1, cpc := C_done\<rparr>, emit i ChainFinished g)"
| "chain_at i C_done c g = (c, g)"

text \<open>
  One step of the copy goroutine: \<^verbatim>\<open>io.Copy\<close> returns (both its results are dropped),
  then the deferred \<^verbatim>\<open>gw.Close()\<close> and \<^verbatim>\<open>pw.Close()\<close>.
\<close>

fun copy_at :: "copy_pc \<Rightarrow> call \<Rightarrow> call" where
  "copy_at P_idle c = c"
| "copy_at P86 c = c\<lparr>ppc := P85\<rparr>"
| "copy_at P85 c = c\<lparr>ppc := P84\<rparr>"
| "copy_at P84 c = c\<lparr>ppc := P_done\<rparr>"
| "copy_at P_done c = c"

definition main_step :: "nat \<Rightarrow> call \<Rightarrow> globals \<Rightarrow> call \<times> globals" where
  "main_step i c g = main_at i (mpc c) c g"

definition chain_step :: "nat \<Rightarrow> call \<Rightarrow> globals \<Rightarrow> call \<times> globals" where
  "chain_step i c g = chain_at i (cpc c) c g"

definition copy_step :: "nat \<Rightarrow> call \<Rightarrow> globals \<Rightarrow> call \<times> globals" where
  "copy_step i c g = (copy_at (ppc c) c, g)"

subsection \<open>Runs\<close>

text \<open>
  A schedule names, step by step, the thread that moves: a goroutine of call \<open>i\<close>, or
  the clock.
\<close>

datatype thread = Main nat | Chain nat | Copy nat | Tick

definition run_thread ::
  "(nat \<Rightarrow> call \<Rightarrow> globals \<Rightarrow> call \<times> globals) \<Rightarrow> nat \<Rightarrow> state \<Rightarrow> state" where
  "run_thread f i s =
     (if i < length (calls s)
      then (case f i (calls s ! i) (glob s) of
              (c', g') \<Rightarrow> \<lparr>calls = (calls s)[i := c'], glob = g'\<rparr>)
      else s)"

fun step :: "thread \<Rightarrow> state \<Rightarrow> state" where
  "step (Main i) s = run_thread main_step i s"
| "step (Chain i) s = run_thread chain_step i s"
| "step (Copy i) s = run_thread copy_step i s"
| "step Tick s = s\<lparr>glob := (glob s)\<lparr>clock := clock (glob s) + 1\<rparr>\<rparr>"

definition exec :: "thread list \<Rightarrow> state \<Rightarrow> state" where
  "exec sched s = fold step sched s"

text \<open>A call that has not started: nothing locked, no goroutine launched.\<close>

definition new_call :: "request \<Rightarrow> call" where
  "new_call r =
     \<lparr>req = r, mpc = L25, cpc = C_idle, ppc = P_idle, err = None, ret = None,
      uploadWait = 0, uploadCtx_done = False, outPipe_closed = False, gw = None\<rparr>"

text \<open>The state in which the calls \<open>rs\<close> are made, in a process with environment \<open>env0\<close>.\<close>

definition init :: "(string \<times> string) list \<Rightarrow> request list \<Rightarrow> state" where
  "init env0 rs =
     \<lparr>calls = map new_call rs,
      glob = \<lparr>pgMutex = None, environ = env0, clock = 0, trace = []\<rparr>\<rparr>"

text \<open>The events of call \<open>i\<close>, in the order they happened.\<close>

definition events_of :: "nat \<Rightarrow> state \<Rightarrow> event list" where
  "events_of i s = map (\<lambda>(t, j, e). e) (filter (\<lambda>(t, j, e). j = i) (trace (glob s)))"

text \<open>\<open>a\<close> happens before the first \<open>b\<close>.\<close>

definition before :: "'a \<Rightarrow> 'a \<Rightarrow> 'a list \<Rightarrow> bool" where
  "before a b xs = (b \<in> set xs \<and> a \<in> set (takeWhile (\<lambda>x. x \<noteq> b) xs))"

subsection \<open>The serialization lock\<close>

text \<open>
  A call is between its \<^verbatim>\<open>pgMutex.Lock()\<close> and its deferred
  \<^verbatim>\<open>pgMutex.Unlock()\<close>.
\<close>

definition holds_lock :: "call \<Rightarrow> bool" where
  "holds_lock c = (mpc c \<noteq> L25 \<and> mpc c \<noteq> Returned)"

text \<open>
  The dump process of a call exists: \<^verbatim>\<open>cmd.Start\<close> has succeeded and
  \<^verbatim>\<open>cmd.Wait\<close>, which returns once the process has exited, has not returned yet.
\<close>

definition dump_active :: "call \<Rightarrow> bool" where
  "dump_active c = (mpc c = L74 \<or> mpc c = L96)"

text \<open>The mutex is locked by call \<open>j\<close> exactly when call \<open>j\<close> is in its critical section.\<close>

definition lock_rel :: "call list \<Rightarrow> nat option \<Rightarrow> bool" where
  "lock_rel cs m =
     ((\<forall>j < length cs. holds_lock (cs ! j) \<longrightarrow> m = Some j) \<and>
      (\<forall>j. m = Some j \<longrightarrow> j < length cs \<and> holds_lock (cs ! j)))"

definition lock_inv :: "state \<Rightarrow> bool" where
  "lock_inv s = lock_rel (calls s) (pgMutex (glob s))"

subsection \<open>Concrete requests\<close>

text \<open>A binding with a database name and a user, and one without credentials.\<close>

definition orders_binding :: Service where
  "orders_binding =
     \<lparr>Name = ''instance1'', Label = ''svc'',
      Credentials = [''database'' \<mapsto> CredString ''orders'', ''username'' \<mapsto> CredString ''admin'',
                     ''password'' \<mapsto> CredString ''s3cret'', ''host'' \<mapsto> CredString ''db.local'',
                     ''port'' \<mapsto> CredOther]\<rparr>"

definition bare_binding :: Service where
  "bare_binding = \<lparr>Name = ''instance2'', Label = ''svc'', Credentials = Map.empty\<rparr>"

text \<open>Everything succeeds.\<close>

definition all_fine :: outcome where
  "all_fine =
     \<lparr>pipe_err = None, start_err = None, wait_err = None, errBuf = [], ctx_Err = None,
      copy_err = None, upload_err = None\<rparr>"

text \<open>
  The dump exits with status 1 after writing a line to its standard error, before any
  deadline; the upload, cut short, fails as well.
\<close>

definition dump_fails :: outcome where
  "dump_fails =
     all_fine\<lparr>wait_err := Some ''exit status 1'',
              errBuf := ''connection refused'' @ [CHR 0x0A],
              upload_err := Some ''unexpected EOF''\<rparr>"

text \<open>The deadline of the caller's context passes and the dump process is killed.\<close>

definition dump_times_out :: outcome where
  "dump_times_out =
     all_fine\<lparr>wait_err := Some ''signal: killed'',
              errBuf := ''pg_dump: dumping contents of table'' @ [CHR 0x0A],
              ctx_Err := Some context_DeadlineExceeded,
              upload_err := Some ''context canceled''\<rparr>"

definition orders_ok :: request where
  "orders_ok = \<lparr>binding = orders_binding, filename = ''backup.sql.gz'', world = all_fine\<rparr>"

definition orders_failing :: request where
  "orders_failing = \<lparr>binding = orders_binding, filename = ''backup.sql.gz'', world = dump_fails\<rparr>"

definition orders_timeout :: request where
  "orders_timeout = \<lparr>binding = orders_binding, filename = ''backup.sql.gz'', world = dump_times_out\<rparr>"

definition bare_ok :: request where
  "bare_ok = \<lparr>binding = bare_binding, filename = ''all.sql.gz'', world = all_fine\<rparr>"

text \<open>
  Call 0 runs up to \<^verbatim>\<open>cmd.Wait\<close>; call 1 tries to lock and stays blocked.
\<close>

definition sched_blocked :: "thread list" where
  "sched_blocked =
     [Main 0, Main 0, Main 0, Main 0, Main 0, Main 0, Main 0, Main 0, Main 0,
      Main 1, Main 1]"

text \<open>
  Then the dump of call 0 fails and call 0 returns, after which call 1 locks and gets to
  \<^verbatim>\<open>cmd.Wait\<close> itself.
\<close>

definition sched_handover :: "thread list" where
  "sched_handover =
     sched_blocked @
     [Main 0, Main 0, Main 0, Main 0, Main 0, Main 0, Main 0,
      Main 1, Main 1, Main 1, Main 1, Main 1, Main 1, Main 1, Main 1, Main 1]"

subsection \<open>Events of a step\<close>

text \<open>The events added to the log between two global states.\<close>

definition emitted :: "globals \<Rightarrow> globals \<Rightarrow> event list" where
  "emitted g g' = map (\<lambda>(t, j, e). e) (drop (length (trace g)) (trace g'))"

definition events_in :: "nat \<Rightarrow> (nat \<times> nat \<times> event) list \<Rightarrow> event list" where
  "events_in i tr = map (\<lambda>(t, j, e). e) (filter (\<lambda>(t, j, e). j = i) tr)"

text \<open>
  A property of every call, stated on the call's variables and its own events:
  \<open>P i c es\<close> for call \<open>i\<close> in state \<open>c\<close> after the events \<open>es\<close>.
\<close>

definition every_call :: "(nat \<Rightarrow> call \<Rightarrow> event list \<Rightarrow> bool) \<Rightarrow> nat \<Rightarrow> state \<Rightarrow> bool" where
  "every_call P n s =
     (length (calls s) = n \<and> (\<forall>i < n. P i (calls s ! i) (events_in i (trace (glob s)))))"

subsection \<open>What a program point knows\<close>

text \<open>
  The result the \<^verbatim>\<open>return\<close> statements can produce from the answers of the outside
  world, read off the control flow of lines 55 to 107.
\<close>

definition result_of :: "outcome \<Rightarrow> backup_error option \<Rightarrow> bool" where
  "result_of w r =
     (case pipe_err w of
        Some e \<Rightarrow> r = Some (PipeError e)
      | None \<Rightarrow>
         (case start_err w of
            Some e \<Rightarrow> r = Some (InvocationError e)
          | None \<Rightarrow>
             (case wait_err w of
                Some e \<Rightarrow>
                  (if ctx_Err w = Some context_DeadlineExceeded
                   then r = Some (DeadlineExceeded
                                   (Sprintf ''postgres dump: timeout: %v'' [verb_v (ctx_Err w)]))
                   else r = Some (DumpFailed (Sprintf ''postgres dump: %v'' [e])))
              | None \<Rightarrow> r = None \<or> r = map_option UploadFailed (upload_err w))))"

definition unstarted :: "call \<Rightarrow> bool" where
  "unstarted c = (cpc c = C_idle \<and> ret c = None)"

definition chain_err :: "call \<Rightarrow> bool" where
  "chain_err c = (err c = None \<or> err c = upload_err (world (req c)))"

definition started_ok :: "call \<Rightarrow> bool" where
  "started_ok c =
     (ret c = None \<and> pipe_err (world (req c)) = None \<and> start_err (world (req c)) = None)"

definition returned_ok :: "call \<Rightarrow> bool" where
  "returned_ok c = (\<exists>r. ret c = Some r \<and> result_of (world (req c)) r)"

text \<open>What holds of a call whose caller's goroutine is at a given program point.\<close>

fun pc_inv :: "main_pc \<Rightarrow> call \<Rightarrow> bool" where
  "pc_inv L25 c = unstarted c"
| "pc_inv L34 c = unstarted c"
| "pc_inv L35 c = unstarted c"
| "pc_inv L36 c = unstarted c"
| "pc_inv L37 c = unstarted c"
| "pc_inv L51 c = unstarted c"
| "pc_inv L55 c = unstarted c"
| "pc_inv L57 c =
     (unstarted c \<and> pipe_err (world (req c)) \<noteq> None \<and> err c = pipe_err (world (req c)))"
| "pc_inv L58 c =
     (unstarted c \<and> pipe_err (world (req c)) \<noteq> None \<and> err c = pipe_err (world (req c)))"
| "pc_inv L66 c = (unstarted c \<and> pipe_err (world (req c)) = None \<and> err c = None)"
| "pc_inv (L67 e) c =
     (unstarted c \<and> pipe_err (world (req c)) = None \<and> start_err (world (req c)) = Some e)"
| "pc_inv (L68 e) c =
     (unstarted c \<and> pipe_err (world (req c)) = None \<and> start_err (world (req c)) = Some e)"
| "pc_inv L74 c = (unstarted c \<and> started_ok c \<and> err c = None)"
| "pc_inv L96 c = (started_ok c \<and> chain_err c)"
| "pc_inv (L98 e) c = (started_ok c \<and> wait_err (world (req c)) = Some e)"
| "pc_inv L99 c =
     (started_ok c \<and> wait_err (world (req c)) \<noteq> None \<and>
      ctx_Err (world (req c)) = Some context_DeadlineExceeded)"
| "pc_inv (L102 e) c =
     (started_ok c \<and> wait_err (world (req c)) = Some e \<and>
      ctx_Err (world (req c)) \<noteq> Some context_DeadlineExceeded)"
| "pc_inv (L103 e) c =
     (started_ok c \<and> wait_err (world (req c)) = Some e \<and>
      ctx_Err (world (req c)) \<noteq> Some context_DeadlineExceeded)"
| "pc_inv L106 c = (started_ok c \<and> wait_err (world (req c)) = None \<and> chain_err c)"
| "pc_inv L107 c = (started_ok c \<and> wait_err (world (req c)) = None \<and> chain_err c)"
| "pc_inv D73 c = returned_ok c"
| "pc_inv D60 c = returned_ok c"
| "pc_inv D26 c = returned_ok c"
| "pc_inv Returned c = returned_ok c"

definition flow :: "call \<Rightarrow> bool" where
  "flow c = pc_inv (mpc c) c"

text \<open>Line 102 has run before line 103 and before a result made on line 103.\<close>

definition stderr_logged :: "call \<Rightarrow> event list \<Rightarrow> bool" where
  "stderr_logged c es =
     (((\<exists>e. mpc c = L103 e) \<or> (\<exists>m. ret c = Some (Some (DumpFailed m)))) \<longrightarrow>
      Logged ErrorLevel (TrimRight (errBuf (world (req c))) crlf) \<in> set es)"

subsection \<open>A call scheduled alone\<close>

text \<open>An upper bound on the steps the caller's goroutine still takes when nothing blocks it.\<close>

fun fuel :: "main_pc \<Rightarrow> nat" where
  "fuel L25 = 16"
| "fuel L34 = 15"
| "fuel L35 = 14"
| "fuel L36 = 13"
| "fuel L37 = 12"
| "fuel L51 = 11"
| "fuel L55 = 10"
| "fuel L57 = 3"
| "fuel L58 = 2"
| "fuel L66 = 9"
| "fuel (L67 e) = 4"
| "fuel (L68 e) = 3"
| "fuel L74 = 8"
| "fuel L96 = 7"
| "fuel (L98 e) = 6"
| "fuel L99 = 4"
| "fuel (L102 e) = 5"
| "fuel (L103 e) = 4"
| "fuel L106 = 5"
| "fuel L107 = 4"
| "fuel D73 = 3"
| "fuel D60 = 2"
| "fuel D26 = 1"
| "fuel Returned = 0"

text \<open>
  Nothing blocks the caller's goroutine of call \<open>i\<close>: the mutex is free if it still
  has to lock it, and the wait group's counter is zero.
\<close>

definition unblocked :: "nat \<Rightarrow> state \<Rightarrow> bool" where
  "unblocked i s =
     (i < length (calls s) \<and> uploadWait (calls s ! i) = 0 \<and>
      (mpc (calls s ! i) = L25 \<longrightarrow> pgMutex (glob s) = None))"

text \<open>The schedule that lets only the caller's goroutine of call \<open>i\<close> move.\<close>

definition alone :: "nat \<Rightarrow> thread list" where
  "alone i = replicate 16 (Main i)"

text \<open>\<^verbatim>\<open>strings.Contains(s, substr)\<close>.\<close>

fun Contains :: "string \<Rightarrow> string \<Rightarrow> bool" where
  "Contains [] sub = (sub = [])"
| "Contains (c # s) sub = (take (length sub) (c # s) = sub \<or> Contains s sub)"

text \<open>
  One call whose dump fails: the caller's goroutine gets to \<^verbatim>\<open>cmd.Wait\<close>, the
  upload goroutine gets into the upload, then \<^verbatim>\<open>cmd.Wait\<close> returns the exit error
  and the caller's goroutine runs to its end.
\<close>

definition sched_process_error :: "thread list" where
  "sched_process_error =
     [Main 0, Main 0, Main 0, Main 0, Main 0, Main 0, Main 0, Main 0, Main 0,
      Chain 0, Tick, Chain 0, Chain 0, Chain 0,
      Main 0, Main 0, Main 0, Main 0, Main 0, Main 0, Main 0]"

text \<open>
  One call running to its end in program order: the upload goroutine finishes before
  \<^verbatim>\<open>uploadWait.Wait()\<close> is reached.
\<close>

definition sched_in_order :: "thread list" where
  "sched_in_order =
     [Main 0, Main 0, Main 0, Main 0, Main 0, Main 0, Main 0, Main 0, Main 0,
      Chain 0, Tick, Tick, Chain 0, Chain 0, Copy 0, Chain 0, Main 0, Copy 0, Copy 0,
      Chain 0, Chain 0, Chain 0,
      Main 0, Main 0, Main 0, Main 0, Main 0]"

subsection \<open>Properties of the log\<close>

text \<open>Every entry of the log satisfies \<open>Q\<close>, given its time, its call and its event.\<close>

definition trace_all :: "(nat \<Rightarrow> nat \<Rightarrow> event \<Rightarrow> bool) \<Rightarrow> nat \<Rightarrow> state \<Rightarrow> bool" where
  "trace_all Q n s = list_all (\<lambda>(t, i, e). i < n \<and> Q t i e) (trace (glob s))"

definition reqs_are :: "request list \<Rightarrow> state \<Rightarrow> bool" where
  "reqs_are rs s = every_call (\<lambda>i c es. req c = rs ! i) (length rs) s"

text \<open>An upload is called with the object path of its request.\<close>

fun upload_ok :: "request \<Rightarrow> event \<Rightarrow> bool" where
  "upload_ok r (UploadCalled p) = (p = objectPath r)"
| "upload_ok r e = True"

text \<open>
  A gzip writer is created with the file name of its request and the time of its
  creation.
\<close>

fun header_ok :: "request \<Rightarrow> nat \<Rightarrow> event \<Rightarrow> bool" where
  "header_ok r t (NewWriter h) = (gz_Name h = filename r \<and> gz_ModTime h = t)"
| "header_ok r t e = True"

text \<open>A process is started with the command of its request.\<close>

fun start_ok :: "request \<Rightarrow> event \<Rightarrow> bool" where
  "start_ok r (Started cmd env) = (cmd = command (binding r))"
| "start_ok r e = True"

text \<open>The gzip writer of a call is one whose creation is in the log.\<close>

definition gw_logged :: "call \<Rightarrow> event list \<Rightarrow> bool" where
  "gw_logged c es = (case gw c of None \<Rightarrow> True | Some h \<Rightarrow> NewWriter h \<in> set es)"

text \<open>The object paths of the uploads called in a list of events.\<close>

definition upload_paths :: "event list \<Rightarrow> string list" where
  "upload_paths es = concat (map (\<lambda>e. case e of UploadCalled p \<Rightarrow> [p] | _ \<Rightarrow> []) es)"

subsection \<open>The wait group\<close>

text \<open>The upload goroutine has run \<^verbatim>\<open>uploadWait.Add(1)\<close>.\<close>

fun registered :: "chain_pc \<Rightarrow> bool" where
  "registered C_idle = False"
| "registered C76 = False"
| "registered C79 = True"
| "registered C83 = True"
| "registered C89 = True"
| "registered C90 = True"
| "registered C91 = True"
| "registered C75 = True"
| "registered C_done = True"

text \<open>
  The counter of the wait group is one between \<^verbatim>\<open>Add(1)\<close> and \<^verbatim>\<open>Done()\<close>, the log
  has both calls, and if \<^verbatim>\<open>Add(1)\<close> came before \<^verbatim>\<open>uploadWait.Wait()\<close> returned,
  so did the end of the upload goroutine.
\<close>

definition wg_inv :: "call \<Rightarrow> event list \<Rightarrow> bool" where
  "wg_inv c es =
     (uploadWait c = (if registered (cpc c) \<and> cpc c \<noteq> C_done then 1 else 0) \<and>
      (WaitGroupAdd \<in> set es) = registered (cpc c) \<and>
      (ChainFinished \<in> set es) = (cpc c = C_done) \<and>
      (WaitGroupWaited \<in> set es \<longrightarrow> before WaitGroupAdd WaitGroupWaited es \<longrightarrow>
         before ChainFinished WaitGroupWaited es))"

text \<open>On the path through line 106 \<^verbatim>\<open>uploadWait.Wait()\<close> has returned.\<close>

definition waited :: "call \<Rightarrow> event list \<Rightarrow> bool" where
  "waited c es =
     ((mpc c = L107 \<or> mpc c = D73 \<or> mpc c = D60 \<or> mpc c = D26 \<or> mpc c = Returned) \<and>
      pipe_err (world (req c)) = None \<and> start_err (world (req c)) = None \<and>
      wait_err (world (req c)) = None \<longrightarrow>
      WaitGroupWaited \<in> set es)"

definition wait_inv :: "call \<Rightarrow> event list \<Rightarrow> bool" where
  "wait_inv c es = (flow c \<and> wg_inv c es \<and> waited c es)"

text \<open>After the deferred \<^verbatim>\<open>uploadCancel()\<close> the context of the upload is cancelled.\<close>

definition cancelled :: "call \<Rightarrow> bool" where
  "cancelled c =
     ((mpc c = D60 \<or> mpc c = D26 \<or> mpc c = Returned) \<and>
      pipe_err (world (req c)) = None \<and> start_err (world (req c)) = None \<longrightarrow>
      uploadCtx_done c)"

definition cancel_inv :: "call \<Rightarrow> bool" where
  "cancel_inv c = (flow c \<and> cancelled c)"

subsection \<open>Forgetting the result of the copy\<close>

text \<open>A request, call and state without the result of \<^verbatim>\<open>io.Copy\<close>.\<close>

definition forget :: "request \<Rightarrow> request" where
  "forget r = r\<lparr>world := (world r)\<lparr>copy_err := None\<rparr>\<rparr>"

definition forget_call :: "call \<Rightarrow> call" where
  "forget_call c = c\<lparr>req := forget (req c)\<rparr>"

definition forget_state :: "state \<Rightarrow> state" where
  "forget_state s = s\<lparr>calls := map forget_call (calls s)\<rparr>"

text \<open>The copy breaks and the object store refuses the upload.\<close>

definition upload_denied :: outcome where
  "upload_denied =
     all_fine\<lparr>copy_err := Some ''io: read/write on closed pipe'', upload_err := Some ''AccessDenied''\<rparr>"

definition orders_denied :: request where
  "orders_denied = \<lparr>binding = orders_binding, filename = ''backup.sql.gz'', world = upload_denied\<rparr>"

definition orders_denied_copied :: request where
  "orders_denied_copied =
     \<lparr>binding = orders_binding, filename = ''backup.sql.gz'',
      world = all_fine\<lparr>upload_err := Some ''AccessDenied''\<rparr>\<rparr>"

subsection \<open>The environment\<close>

definition pg_keys :: "string set" where
  "pg_keys = {''PGUSER'', ''PGPASSWORD'', ''PGHOST'', ''PGPORT''}"

text \<open>No connection parameter has a NUL byte, which \<^verbatim>\<open>os.Setenv\<close> refuses.\<close>

definition valid_creds :: "Service \<Rightarrow> bool" where
  "valid_creds b =
     (CHR 0x00 \<notin> set (username b) \<and> CHR 0x00 \<notin> set (password b) \<and>
      CHR 0x00 \<notin> set (host b) \<and> CHR 0x00 \<notin> set (port b))"

text \<open>The environment \<open>env0\<close> with the connection parameters of a binding.\<close>

definition child_env :: "(string \<times> string) list \<Rightarrow> Service \<Rightarrow> (string \<rightharpoonup> string)" where
  "child_env env0 b =
     (map_of env0)(''PGUSER'' \<mapsto> username b, ''PGPASSWORD'' \<mapsto> password b,
                   ''PGHOST'' \<mapsto> host b, ''PGPORT'' \<mapsto> port b)"

text \<open>How many of lines 34 to 37 the caller's goroutine has executed.\<close>

fun exported :: "main_pc \<Rightarrow> nat" where
  "exported L25 = 0"
| "exported L34 = 0"
| "exported L35 = 1"
| "exported L36 = 2"
| "exported L37 = 3"
| "exported pc = 4"

definition exported_ok :: "nat \<Rightarrow> Service \<Rightarrow> (string \<rightharpoonup> string) \<Rightarrow> bool" where
  "exported_ok n b m =
     ((1 \<le> n \<longrightarrow> m ''PGUSER'' = Some (username b)) \<and>
      (2 \<le> n \<longrightarrow> m ''PGPASSWORD'' = Some (password b)) \<and>
      (3 \<le> n \<longrightarrow> m ''PGHOST'' = Some (host b)) \<and>
      (4 \<le> n \<longrightarrow> m ''PGPORT'' = Some (port b)))"

text \<open>
  Nobody but call \<open>i\<close> can have written to the environment since call \<open>i\<close> locked the
  mutex: call \<open>i\<close> holds the mutex, or no other call has got past its \<^verbatim>\<open>Lock()\<close>.
\<close>

definition owner_of :: "nat \<Rightarrow> call list \<Rightarrow> bool" where
  "owner_of i cs = (holds_lock (cs ! i) \<or> (\<forall>j < length cs. j \<noteq> i \<longrightarrow> mpc (cs ! j) = L25))"

definition export_inv :: "nat \<Rightarrow> Service \<Rightarrow> state \<Rightarrow> bool" where
  "export_inv i b s =
     (owner_of i (calls s) \<longrightarrow>
      exported_ok (exported (mpc (calls s ! i))) b (map_of (environ (glob s))))"

definition others_kept :: "(string \<times> string) list \<Rightarrow> state \<Rightarrow> bool" where
  "others_kept env0 s = (\<forall>k. k \<notin> pg_keys \<longrightarrow> map_of (environ (glob s)) k = map_of env0 k)"

text \<open>A process is started in the environment \<open>m\<close>.\<close>

fun start_env_ok :: "(string \<rightharpoonup> string) \<Rightarrow> event \<Rightarrow> bool" where
  "start_env_ok m (Started cmd env) = (map_of env = m)"
| "start_env_ok m e = True"

definition starts_ok :: "nat \<Rightarrow> (string \<rightharpoonup> string) \<Rightarrow> state \<Rightarrow> bool" where
  "starts_ok i m s = list_all (start_env_ok m) (events_in i (trace (glob s)))"

definition env_inv :: "(string \<times> string) list \<Rightarrow> request \<Rightarrow> nat \<Rightarrow> state \<Rightarrow> bool" where
  "env_inv env0 r i s =
     (i < length (calls s) \<and> req (calls s ! i) = r \<and> lock_inv s \<and> others_kept env0 s \<and>
      export_inv i (binding r) s \<and> starts_ok i (child_env env0 (binding r)) s)"

section \<open>Invariants and theorems\<close>

subsection \<open>Runs and their invariants\<close>

lemma exec_Nil: "exec [] s = s"
  by (simp add: exec_def)

lemma exec_Cons: "exec (t # ts) s = exec ts (step t s)"
  by (simp add: exec_def)

lemma exec_append: "exec (ts @ us) s = exec us (exec ts s)"
  by (simp add: exec_def)

lemma exec_invariant:
  assumes "P s" and "\<And>t s. P s \<Longrightarrow> P (step t s)"
  shows "P (exec sched s)"
  using assms(1)
proof (induction sched arbitrary: s)
  case Nil then show ?case by (simp add: exec_Nil)
next
  case (Cons t ts) then show ?case by (simp add: exec_Cons assms(2))
qed

lemma main_at_lock:
  assumes "main_at i pc c g = (c', g')" "mpc c = pc"
  shows "(pc = L25 \<and> pgMutex g = None \<and> pgMutex g' = Some i \<and> holds_lock c')
       \<or> (c' = c \<and> g' = g)
       \<or> (pc = D26 \<and> pgMutex g' = None \<and> mpc c' = Returned)
       \<or> (holds_lock c \<and> holds_lock c' \<and> pgMutex g' = pgMutex g)"
  using assms
  by (cases pc) (auto simp: holds_lock_def emit_def os_Setenv_def logf_def split: option.splits if_splits)

lemma step_cases:
  obtains (Stay) "step t s = s"
  | (Tick) "step t s = s\<lparr>glob := (glob s)\<lparr>clock := clock (glob s) + 1\<rparr>\<rparr>"
  | (Main) i c' g' where "i < length (calls s)"
      "main_at i (mpc (calls s ! i)) (calls s ! i) (glob s) = (c', g')"
      "step t s = \<lparr>calls = (calls s)[i := c'], glob = g'\<rparr>"
  | (Chain) i c' g' where "i < length (calls s)"
      "chain_at i (cpc (calls s ! i)) (calls s ! i) (glob s) = (c', g')"
      "step t s = \<lparr>calls = (calls s)[i := c'], glob = g'\<rparr>"
  | (Copy) i where "i < length (calls s)"
      "step t s = \<lparr>calls = (calls s)[i := copy_at (ppc (calls s ! i)) (calls s ! i)], glob = glob s\<rparr>"
proof (cases t)
  case (Main i)
  show ?thesis
  proof (cases "i < length (calls s)")
    case True
    obtain c' g' where "main_at i (mpc (calls s ! i)) (calls s ! i) (glob s) = (c', g')"
      by (cases "main_at i (mpc (calls s ! i)) (calls s ! i) (glob s)")
    with True Main that(3) show ?thesis by (simp add: run_thread_def main_step_def)
  next
    case False
    with Main that(1) show ?thesis by (simp add: run_thread_def)
  qed
next
  case (Chain i)
  show ?thesis
  proof (cases "i < length (calls s)")
    case True
    obtain c' g' where "chain_at i (cpc (calls s ! i)) (calls s ! i) (glob s) = (c', g')"
      by (cases "chain_at i (cpc (calls s ! i)) (calls s ! i) (glob s)")
    with True Chain that(4) show ?thesis by (simp add: run_thread_def chain_step_def)
  next
    case False
    with Chain that(1) show ?thesis by (simp add: run_thread_def)
  qed
next
  case (Copy i)
  show ?thesis
  proof (cases "i < length (calls s)")
    case True
    with Copy that(5) show ?thesis by (simp add: run_thread_def copy_step_def)
  next
    case False
    with Copy that(1) show ?thesis by (simp add: run_thread_def)
  qed
next
  case Tick
  with that(2) show ?thesis by simp
qed

lemma chain_at_lock:
  assumes "chain_at i pc c g = (c', g')"
  shows "mpc c' = mpc c \<and> pgMutex g' = pgMutex g"
  using assms by (cases pc) (auto simp: emit_def logf_def Let_def split: option.splits)

lemma copy_at_mpc: "mpc (copy_at pc c) = mpc c"
  by (cases pc) simp_all

lemma lock_rel_update:
  assumes R: "lock_rel cs m"
      and i: "i < length cs"
      and D: "(m = None \<and> m' = Some i \<and> holds_lock c') \<or> (holds_lock c' = holds_lock (cs ! i) \<and> m' = m)
              \<or> (holds_lock (cs ! i) \<and> m' = None \<and> \<not> holds_lock c')"
  shows "lock_rel (cs[i := c']) m'"
proof -
  from R have A: "\<And>j. j < length cs \<Longrightarrow> holds_lock (cs ! j) \<Longrightarrow> m = Some j"
    and B: "\<And>j. m = Some j \<Longrightarrow> j < length cs \<and> holds_lock (cs ! j)"
    unfolding lock_rel_def by blast+
  have 1: "m' = Some j" if j: "j < length (cs[i := c'])" and h: "holds_lock (cs[i := c'] ! j)" for j
  proof (cases "j = i")
    case True
    with h i have "holds_lock c'" by simp
    with D A[OF i] True show ?thesis by blast
  next
    case False
    with h j have hj: "holds_lock (cs ! j)" "j < length cs" by simp_all
    from A[OF hj(2) hj(1)] have mj: "m = Some j" .
    with B[of j] A[OF i] False D show ?thesis by auto
  qed
  have 2: "j < length (cs[i := c']) \<and> holds_lock (cs[i := c'] ! j)" if m': "m' = Some j" for j
    using D
  proof (elim disjE)
    assume "m = None \<and> m' = Some i \<and> holds_lock c'" with m' i show ?thesis by simp
  next
    assume a: "holds_lock c' = holds_lock (cs ! i) \<and> m' = m"
    with m' B[of j] have hj: "holds_lock (cs ! j)" "j < length cs" by simp_all
    show ?thesis
    proof (cases "j = i")
      case True
      from a hj(1) True have "holds_lock c'" by blast
      with True i show ?thesis by simp
    next
      case False
      with hj show ?thesis by simp
    qed
  next
    assume "holds_lock (cs ! i) \<and> m' = None \<and> \<not> holds_lock c'" with m' show ?thesis by simp
  qed
  from 1 2 show ?thesis unfolding lock_rel_def by blast
qed

lemma lock_inv_step:
  assumes "lock_inv s"
  shows "lock_inv (step t s)"
proof (cases rule: step_cases[of t s])
  case Stay
  with assms show ?thesis by simp
next
  case Tick
  with assms show ?thesis by (simp add: lock_inv_def)
next
  case (Main i c' g')
  from assms have R: "lock_rel (calls s) (pgMutex (glob s))" by (simp add: lock_inv_def)
  from main_at_lock[OF Main(2) refl]
  have D: "(pgMutex (glob s) = None \<and> pgMutex g' = Some i \<and> holds_lock c')
     \<or> (holds_lock c' = holds_lock (calls s ! i) \<and> pgMutex g' = pgMutex (glob s))
     \<or> (holds_lock (calls s ! i) \<and> pgMutex g' = None \<and> \<not> holds_lock c')"
    by (elim disjE) (simp_all add: holds_lock_def)
  from lock_rel_update[OF R Main(1) D]
  show ?thesis unfolding Main(3) lock_inv_def by simp
next
  case (Chain i c' g')
  from assms have R: "lock_rel (calls s) (pgMutex (glob s))" by (simp add: lock_inv_def)
  from chain_at_lock[OF Chain(2)]
  have D: "(pgMutex (glob s) = None \<and> pgMutex g' = Some i \<and> holds_lock c')
     \<or> (holds_lock c' = holds_lock (calls s ! i) \<and> pgMutex g' = pgMutex (glob s))
     \<or> (holds_lock (calls s ! i) \<and> pgMutex g' = None \<and> \<not> holds_lock c')"
    by (simp add: holds_lock_def)
  from lock_rel_update[OF R Chain(1) D]
  show ?thesis unfolding Chain(3) lock_inv_def by simp
next
  case (Copy i)
  from assms have R: "lock_rel (calls s) (pgMutex (glob s))" by (simp add: lock_inv_def)
  have D: "(pgMutex (glob s) = None \<and> pgMutex (glob s) = Some i \<and> holds_lock (copy_at (ppc (calls s ! i)) (calls s ! i)))
     \<or> (holds_lock (copy_at (ppc (calls s ! i)) (calls s ! i)) = holds_lock (calls s ! i) \<and> pgMutex (glob s) = pgMutex (glob s))
     \<or> (holds_lock (calls s ! i) \<and> pgMutex (glob s) = None \<and> \<not> holds_lock (copy_at (ppc (calls s ! i)) (calls s ! i)))"
    by (simp add: holds_lock_def copy_at_mpc)
  from lock_rel_update[OF R Copy(1) D]
  show ?thesis unfolding Copy(2) lock_inv_def by simp
qed

lemma lock_inv_init: "lock_inv (init env0 rs)"
  by (simp add: lock_inv_def lock_rel_def init_def new_call_def holds_lock_def)

lemma lock_inv_exec: "lock_inv (exec sched (init env0 rs))"
  by (rule exec_invariant[where P = lock_inv, OF lock_inv_init lock_inv_step])

lemma length_calls_step: "length (calls (step t s)) = length (calls s)"
  by (cases rule: step_cases[of t s]) simp_all

lemma length_calls_exec: "length (calls (exec sched s)) = length (calls s)"
  by (induction sched arbitrary: s) (simp_all add: exec_Nil exec_Cons length_calls_step)

lemma length_calls_init: "length (calls (exec sched (init env0 rs))) = length rs"
  by (simp add: length_calls_exec init_def)

lemma lock_inv_holds:
  assumes "lock_inv s" "j < length (calls s)" "holds_lock (calls s ! j)"
  shows "pgMutex (glob s) = Some j"
  using assms unfolding lock_inv_def lock_rel_def by blast

lemma lock_inv_locked:
  assumes "lock_inv s" "pgMutex (glob s) = Some j"
  shows "j < length (calls s) \<and> holds_lock (calls s ! j)"
  using assms unfolding lock_inv_def lock_rel_def by blast

subsection \<open>C5: one dump at a time, and the lock is released\<close>

text \<open>
  C5. However many calls of \<^verbatim>\<open>Backup\<close> run concurrently and however they are
  scheduled, at most one of them has a dump process at any moment; a call that has
  returned, whatever the outside world answered and so on every return path, no longer
  holds \<^verbatim>\<open>pgMutex\<close>; and once all calls have returned the mutex is free.
\<close>

theorem serialization_lock:
  assumes "s = exec sched (init env0 rs)"
  shows "(\<forall>i < length rs. \<forall>j < length rs.
            dump_active (calls s ! i) \<and> dump_active (calls s ! j) \<longrightarrow> i = j) \<and>
         (\<forall>i < length rs. mpc (calls s ! i) = Returned \<longrightarrow> pgMutex (glob s) \<noteq> Some i) \<and>
         ((\<forall>i < length rs. mpc (calls s ! i) = Returned) \<longrightarrow> pgMutex (glob s) = None)"
proof -
  have inv: "lock_inv s"
    unfolding assms by (rule lock_inv_exec)
  have len: "length (calls s) = length rs"
    unfolding assms by (rule length_calls_init)
  have active: "holds_lock c" if "dump_active c" for c
    using that by (auto simp: dump_active_def holds_lock_def)
  have 1: "i = j"
    if "i < length rs" "j < length rs" "dump_active (calls s ! i)" "dump_active (calls s ! j)"
    for i j
  proof -
    from that len have i: "i < length (calls s)" and j: "j < length (calls s)"
      by simp_all
    from lock_inv_holds[OF inv i active[OF that(3)]] lock_inv_holds[OF inv j active[OF that(4)]]
    show ?thesis by simp
  qed
  have 2: "pgMutex (glob s) \<noteq> Some i" if "mpc (calls s ! i) = Returned" for i
  proof
    assume "pgMutex (glob s) = Some i"
    from lock_inv_locked[OF inv this] that show False
      by (simp add: holds_lock_def)
  qed
  have 3: "pgMutex (glob s) = None" if all: "\<forall>i < length rs. mpc (calls s ! i) = Returned"
  proof (cases "pgMutex (glob s)")
    case None
    then show ?thesis .
  next
    case (Some j)
    from lock_inv_locked[OF inv Some] len all show ?thesis
      by (auto simp: holds_lock_def)
  qed
  from 1 2 3 show ?thesis by blast
qed

theorem serialization_lock_witness:
  "dump_active (calls (exec sched_blocked (init [] [orders_failing, bare_ok])) ! 0) \<and>
   \<not> dump_active (calls (exec sched_blocked (init [] [orders_failing, bare_ok])) ! 1) \<and>
   mpc (calls (exec sched_handover (init [] [orders_failing, bare_ok])) ! 0) = Returned \<and>
   dump_active (calls (exec sched_handover (init [] [orders_failing, bare_ok])) ! 1) \<and>
   pgMutex (glob (exec sched_handover (init [] [orders_failing, bare_ok]))) \<noteq> Some 0"
proof -
  have a: "dump_active (calls (exec sched_blocked (init [] [orders_failing, bare_ok])) ! 0)"
    by code_simp
  have b: "mpc (calls (exec sched_handover (init [] [orders_failing, bare_ok])) ! 0) = Returned"
    by code_simp
  have c: "dump_active (calls (exec sched_handover (init [] [orders_failing, bare_ok])) ! 1)"
    by code_simp
  note th = serialization_lock[OF refl, of "[orders_failing, bare_ok]" _ "[]"]
  have d: "\<not> dump_active (calls (exec sched_blocked (init [] [orders_failing, bare_ok])) ! 1)"
  proof
    assume "dump_active (calls (exec sched_blocked (init [] [orders_failing, bare_ok])) ! 1)"
    with th[of sched_blocked, THEN conjunct1, rule_format, of 0 1] a
    have "(0::nat) = 1" by simp
    then show False by simp
  qed
  from th[of sched_handover, THEN conjunct2, THEN conjunct1, rule_format, of 0] b
  have e: "pgMutex (glob (exec sched_handover (init [] [orders_failing, bare_ok]))) \<noteq> Some 0"
    by simp
  from a d b c e show ?thesis by blast
qed

subsection \<open>What a step leaves alone\<close>

lemma emitted_same: "emitted g g = []"
  by (simp add: emitted_def)

lemma emitted_emit: "emitted g (emit i ev g) = [ev]"
  by (simp add: emitted_def emit_def)

lemma emitted_logf: "emitted g (logf i l m g) = [Logged l m]"
  by (simp add: logf_def emitted_emit)

lemma emitted_Setenv:
  "emitted g (os_Setenv i k v g) = (if CHR 0x00 \<in> set v then [] else [Setenv k v])"
  by (simp add: emitted_def os_Setenv_def emit_def)

lemma emitted_unlock: "emitted g (emit i ev (g\<lparr>pgMutex := m\<rparr>)) = [ev]"
  by (simp add: emitted_def emit_def)

lemma main_at_frame:
  assumes "main_at i pc c g = (c', g')"
  shows "req c' = req c \<and> clock g' = clock g \<and>
         trace g' = trace g @ map (\<lambda>e. (clock g, i, e)) (emitted g g')"
  using assms
  by (cases pc)
     (auto simp: emitted_def emit_def os_Setenv_def logf_def split: option.splits if_splits)

lemma chain_at_frame:
  assumes "chain_at i pc c g = (c', g')"
  shows "req c' = req c \<and> clock g' = clock g \<and> environ g' = environ g \<and>
         trace g' = trace g @ map (\<lambda>e. (clock g, i, e)) (emitted g g')"
  using assms
  by (cases pc)
     (auto simp: emitted_def emit_def logf_def Let_def split: option.splits if_splits)

lemma copy_at_req: "req (copy_at pc c) = req c"
  by (cases pc) simp_all

lemma events_in_append:
  "events_in j (tr @ map (\<lambda>e. (t, i, e)) es) = events_in j tr @ (if j = i then es else [])"
  by (induction es rule: rev_induct) (auto simp: events_in_def)

lemma events_of_events_in: "events_of i s = events_in i (trace (glob s))"
  by (simp add: events_of_def events_in_def)

subsection \<open>Invariants of every call\<close>

lemma every_call_update:
  assumes E: "every_call P n s"
      and i: "i < n"
      and tr: "trace g' = trace (glob s) @ map (\<lambda>e. (t, i, e)) es"
      and P: "P i (calls s ! i) (events_in i (trace (glob s))) \<Longrightarrow>
              P i c' (events_in i (trace (glob s)) @ es)"
  shows "every_call P n \<lparr>calls = (calls s)[i := c'], glob = g'\<rparr>"
proof -
  from E have len: "length (calls s) = n"
    and all: "\<And>j. j < n \<Longrightarrow> P j (calls s ! j) (events_in j (trace (glob s)))"
    unfolding every_call_def by simp_all
  have "P j ((calls s)[i := c'] ! j) (events_in j (trace g'))" if j: "j < n" for j
  proof (cases "j = i")
    case True
    with P all[OF i] i len show ?thesis
      by (simp add: tr events_in_append)
  next
    case False
    with all[OF j] show ?thesis
      by (simp add: tr events_in_append)
  qed
  with len show ?thesis
    unfolding every_call_def by simp
qed

lemma every_call_step:
  assumes main: "\<And>i c g c' g'. P i c (events_in i (trace g)) \<Longrightarrow>
                   main_at i (mpc c) c g = (c', g') \<Longrightarrow>
                   P i c' (events_in i (trace g) @ emitted g g')"
      and chain: "\<And>i c g c' g'. P i c (events_in i (trace g)) \<Longrightarrow>
                   chain_at i (cpc c) c g = (c', g') \<Longrightarrow>
                   P i c' (events_in i (trace g) @ emitted g g')"
      and copy: "\<And>i c es. P i c es \<Longrightarrow> P i (copy_at (ppc c) c) es"
      and E: "every_call P n s"
  shows "every_call P n (step t s)"
proof (cases rule: step_cases[of t s])
  case Stay
  with E show ?thesis by simp
next
  case Tick
  with E show ?thesis by (simp add: every_call_def)
next
  case (Main i c' g')
  from E Main(1) have i: "i < n" by (simp add: every_call_def)
  from main_at_frame[OF Main(2)]
  have tr: "trace g' = trace (glob s) @ map (\<lambda>e. (clock (glob s), i, e)) (emitted (glob s) g')"
    by simp
  show ?thesis
    unfolding Main(3) by (rule every_call_update[OF E i tr]) (rule main[OF _ Main(2)])
next
  case (Chain i c' g')
  from E Chain(1) have i: "i < n" by (simp add: every_call_def)
  from chain_at_frame[OF Chain(2)]
  have tr: "trace g' = trace (glob s) @ map (\<lambda>e. (clock (glob s), i, e)) (emitted (glob s) g')"
    by simp
  show ?thesis
    unfolding Chain(3) by (rule every_call_update[OF E i tr]) (rule chain[OF _ Chain(2)])
next
  case (Copy i)
  from E Copy(1) have i: "i < n" by (simp add: every_call_def)
  have tr: "trace (glob s) = trace (glob s) @ map (\<lambda>e. (0, i, e)) []"
    by simp
  show ?thesis
    unfolding Copy(2) by (rule every_call_update[OF E i tr]) (simp add: copy)
qed

lemma every_call_exec:
  assumes init: "\<And>i. i < length rs \<Longrightarrow> P i (new_call (rs ! i)) []"
      and main: "\<And>i c g c' g'. P i c (events_in i (trace g)) \<Longrightarrow>
                   main_at i (mpc c) c g = (c', g') \<Longrightarrow>
                   P i c' (events_in i (trace g) @ emitted g g')"
      and chain: "\<And>i c g c' g'. P i c (events_in i (trace g)) \<Longrightarrow>
                   chain_at i (cpc c) c g = (c', g') \<Longrightarrow>
                   P i c' (events_in i (trace g) @ emitted g g')"
      and copy: "\<And>i c es. P i c es \<Longrightarrow> P i (copy_at (ppc c) c) es"
      and i: "i < length rs"
  shows "P i (calls (exec sched (init env0 rs)) ! i) (events_of i (exec sched (init env0 rs)))"
proof -
  have "every_call P (length rs) (init env0 rs)"
    unfolding every_call_def by (simp add: init_def events_in_def init)
  then have "every_call P (length rs) (exec sched (init env0 rs))"
    by (rule exec_invariant[where P = "every_call P (length rs)"])
       (rule every_call_step[where P = P, OF main chain copy])
  with i show ?thesis
    unfolding every_call_def events_of_events_in by simp
qed

text \<open>The requests never change.\<close>

lemma req_exec:
  assumes "i < length rs"
  shows "req (calls (exec sched (init env0 rs)) ! i) = rs ! i"
  by (rule every_call_exec[where P = "\<lambda>i c es. req c = rs ! i", OF _ _ _ _ assms])
     (simp_all add: new_call_def main_at_frame chain_at_frame copy_at_req)

subsection \<open>Control flow and results\<close>

lemma flow_main:
  assumes "flow c" "main_at i (mpc c) c g = (c', g')"
  shows "flow c'"
  using assms unfolding flow_def
  by (cases "mpc c")
     (auto simp: unstarted_def chain_err_def started_ok_def returned_ok_def result_of_def
           simp del: Sprintf.simps
           split: option.splits if_splits)

lemma flow_chain:
  assumes "flow c" "chain_at i (cpc c) c g = (c', g')"
  shows "flow c'"
proof -
  have same: "mpc c' = mpc c" "ret c' = ret c" "req c' = req c"
    using assms(2) by (cases "cpc c"; auto simp: Let_def split: option.splits)+
  have cases: "c' = c \<or> (cpc c \<noteq> C_idle \<and> cpc c' \<noteq> C_idle \<and> (err c' = err c \<or> err c' = upload_err (world (req c))))"
    using assms(2) by (cases "cpc c") (auto simp: Let_def split: option.splits)
  from assms(1) cases show ?thesis
    unfolding flow_def same
    by (cases "mpc c")
       (auto simp: unstarted_def chain_err_def started_ok_def returned_ok_def same)
qed

lemma flow_copy: "flow c \<Longrightarrow> flow (copy_at (ppc c) c)"
  unfolding flow_def
  by (cases "ppc c"; cases "mpc c")
     (simp_all add: unstarted_def chain_err_def started_ok_def returned_ok_def)

lemma flow_exec:
  assumes "i < length rs"
  shows "flow (calls (exec sched (init env0 rs)) ! i)"
proof (rule every_call_exec[where P = "\<lambda>i c es. flow c", OF _ _ _ _ assms])
  fix j
  show "flow (new_call (rs ! j))"
    by (simp add: flow_def new_call_def unstarted_def)
next
  fix j c g c' g'
  assume "flow c" "main_at j (mpc c) c g = (c', g')"
  then show "flow c'" by (rule flow_main)
next
  fix j c g c' g'
  assume "flow c" "chain_at j (cpc c) c g = (c', g')"
  then show "flow c'" by (rule flow_chain)
next
  fix c
  assume "flow c"
  then show "flow (copy_at (ppc c) c)" by (rule flow_copy)
qed

lemma returned_result:
  assumes "i < length rs" "mpc (calls (exec sched (init env0 rs)) ! i) = Returned"
  shows "\<exists>r. ret (calls (exec sched (init env0 rs)) ! i) = Some r \<and> result_of (world (rs ! i)) r"
  using flow_exec[OF assms(1), of sched env0] assms(2) req_exec[OF assms(1), of sched env0]
  by (simp add: flow_def returned_ok_def)

lemma stderr_logged_main:
  assumes "stderr_logged c es" "main_at i (mpc c) c g = (c', g')"
  shows "stderr_logged c' (es @ emitted g g')"
  using assms unfolding stderr_logged_def
  by (cases "mpc c")
     (auto simp: emitted_same emitted_emit emitted_logf emitted_Setenv emitted_unlock
           simp del: Sprintf.simps
           split: option.splits if_splits)

lemma stderr_logged_chain:
  assumes "stderr_logged c es" "chain_at i (cpc c) c g = (c', g')"
  shows "stderr_logged c' (es @ emitted g g')"
proof -
  have "mpc c' = mpc c \<and> ret c' = ret c \<and> req c' = req c"
    using assms(2) by (cases "cpc c") (auto simp: Let_def split: option.splits)
  with assms(1) show ?thesis
    unfolding stderr_logged_def by auto
qed

lemma stderr_logged_copy: "stderr_logged c es \<Longrightarrow> stderr_logged (copy_at (ppc c) c) es"
  unfolding stderr_logged_def by (cases "ppc c") simp_all

lemma stderr_logged_exec:
  assumes "i < length rs"
  shows "stderr_logged (calls (exec sched (init env0 rs)) ! i)
           (events_of i (exec sched (init env0 rs)))"
proof (rule every_call_exec[where P = "\<lambda>i c es. stderr_logged c es", OF _ _ _ _ assms])
  fix j
  show "stderr_logged (new_call (rs ! j)) []"
    by (simp add: stderr_logged_def new_call_def)
next
  fix j c g c' g'
  assume "stderr_logged c (events_in j (trace g))" "main_at j (mpc c) c g = (c', g')"
  then show "stderr_logged c' (events_in j (trace g) @ emitted g g')"
    by (rule stderr_logged_main)
next
  fix j c g c' g'
  assume "stderr_logged c (events_in j (trace g))" "chain_at j (cpc c) c g = (c', g')"
  then show "stderr_logged c' (events_in j (trace g) @ emitted g g')"
    by (rule stderr_logged_chain)
next
  fix c es
  assume "stderr_logged c es"
  then show "stderr_logged (copy_at (ppc c) c) es" by (rule stderr_logged_copy)
qed

subsection \<open>A call scheduled alone returns\<close>

lemma fuel_Returned: "fuel pc = 0 \<Longrightarrow> pc = Returned"
  by (cases pc) simp_all

lemma main_at_fuel:
  assumes "main_at i pc c g = (c', g')" "mpc c = pc" "uploadWait c = 0"
    and "pc = L25 \<longrightarrow> pgMutex g = None"
  shows "fuel (mpc c') \<le> fuel pc - 1 \<and> uploadWait c' = 0 \<and> mpc c' \<noteq> L25"
  using assms
  by (cases pc) (auto split: option.splits if_splits)

lemma unblocked_step:
  assumes "unblocked i s"
  shows "unblocked i (step (Main i) s) \<and>
         fuel (mpc (calls (step (Main i) s) ! i)) \<le> fuel (mpc (calls s ! i)) - 1"
proof -
  from assms have i: "i < length (calls s)" and w: "uploadWait (calls s ! i) = 0"
    and m: "mpc (calls s ! i) = L25 \<longrightarrow> pgMutex (glob s) = None"
    unfolding unblocked_def by simp_all
  obtain c' g' where st: "main_at i (mpc (calls s ! i)) (calls s ! i) (glob s) = (c', g')"
    by (cases "main_at i (mpc (calls s ! i)) (calls s ! i) (glob s)")
  from main_at_fuel[OF st refl w m] i st show ?thesis
    by (simp add: unblocked_def run_thread_def main_step_def)
qed

lemma unblocked_run:
  assumes "unblocked i s"
  shows "fuel (mpc (calls (exec (replicate n (Main i)) s) ! i)) \<le> fuel (mpc (calls s ! i)) - n"
  using assms
proof (induction n arbitrary: s)
  case 0
  then show ?case by (simp add: exec_Nil)
next
  case (Suc n)
  from unblocked_step[OF Suc.prems]
  have u: "unblocked i (step (Main i) s)"
    and f: "fuel (mpc (calls (step (Main i) s) ! i)) \<le> fuel (mpc (calls s ! i)) - 1"
    by simp_all
  from Suc.IH[OF u] f show ?case
    by (simp add: exec_Cons)
qed

lemma alone_returns:
  assumes "i < length rs"
  shows "mpc (calls (exec (alone i) (init env0 rs)) ! i) = Returned"
proof -
  from assms have "unblocked i (init env0 rs)"
    by (simp add: unblocked_def init_def new_call_def)
  from unblocked_run[OF this, of 16] assms
  have "fuel (mpc (calls (exec (alone i) (init env0 rs)) ! i)) = 0"
    by (simp add: alone_def init_def new_call_def)
  then show ?thesis by (rule fuel_Returned)
qed

subsection \<open>Library functions\<close>

lemma Sprintf_dump: "Sprintf ''postgres dump: %v'' [e] = ''postgres dump: '' @ e"
  by simp

lemma Sprintf_timeout:
  "Sprintf ''postgres dump: timeout: %v'' [verb_v (Some context_DeadlineExceeded)] =
   ''postgres dump: timeout: context deadline exceeded''"
  by simp

lemma TrimRight_suffix: "\<exists>t. s = TrimRight s cs @ t \<and> set t \<subseteq> set cs"
proof -
  let ?P = "\<lambda>c. c \<in> set cs"
  have "rev (dropWhile ?P (rev s)) @ rev (takeWhile ?P (rev s)) =
        rev (takeWhile ?P (rev s) @ dropWhile ?P (rev s))"
    by (simp only: rev_append)
  also have "\<dots> = s"
    by (simp only: takeWhile_dropWhile_id rev_rev_ident)
  finally have "s = TrimRight s cs @ rev (takeWhile ?P (rev s))"
    by (simp add: TrimRight_def)
  moreover have "set (rev (takeWhile ?P (rev s))) \<subseteq> set cs"
    by (auto dest: set_takeWhileD)
  ultimately show ?thesis by blast
qed

lemma TrimRight_last: "TrimRight s cs = [] \<or> last (TrimRight s cs) \<notin> set cs"
proof (cases "dropWhile (\<lambda>c. c \<in> set cs) (rev s)")
  case Nil
  then show ?thesis by (simp add: TrimRight_def)
next
  case (Cons x xs)
  then have "hd (dropWhile (\<lambda>c. c \<in> set cs) (rev s)) = x" by simp
  with hd_dropWhile[of "\<lambda>c. c \<in> set cs" "rev s"] Cons have "x \<notin> set cs" by auto
  with Cons show ?thesis by (simp add: TrimRight_def)
qed

lemma result_of_process_error:
  assumes "result_of w r" "pipe_err w = None" "start_err w = None" "wait_err w = Some e"
  shows "r = (if ctx_Err w = Some context_DeadlineExceeded
              then Some (DeadlineExceeded ''postgres dump: timeout: context deadline exceeded'')
              else Some (DumpFailed (''postgres dump: '' @ e)))"
  using assms by (simp add: result_of_def split: if_splits)

lemma result_of_success:
  assumes "result_of w r" "pipe_err w = None" "start_err w = None" "wait_err w = None"
  shows "r = None \<or> (\<exists>e. upload_err w = Some e \<and> r = Some (UploadFailed e))"
  using assms by (cases "upload_err w") (auto simp: result_of_def)

subsection \<open>C4: a process error after the deadline\<close>

text \<open>
  C4. When the dump process was started and \<^verbatim>\<open>cmd.Wait\<close> reports an error, the
  check of \<^verbatim>\<open>ctx.Err()\<close> alone decides the result, whatever the process wrote to
  its standard error: with the deadline exceeded \<^verbatim>\<open>Backup\<close> returns the
  DeadlineExceeded error, whose text ends in the text of the context's error, and
  otherwise the DumpFailed error, never both; and a schedule exists on which the call
  returns.
\<close>

theorem deadline_exceeded:
  assumes "i < length rs"
    and "pipe_err (world (rs ! i)) = None" and "start_err (world (rs ! i)) = None"
    and "wait_err (world (rs ! i)) = Some e"
  shows "(\<forall>sched. mpc (calls (exec sched (init env0 rs)) ! i) = Returned \<longrightarrow>
            ret (calls (exec sched (init env0 rs)) ! i) =
              Some (if ctx_Err (world (rs ! i)) = Some context_DeadlineExceeded
                    then Some (DeadlineExceeded
                                (''postgres dump: timeout: '' @ context_text context_DeadlineExceeded))
                    else Some (DumpFailed (''postgres dump: '' @ e)))) \<and>
         mpc (calls (exec (alone i) (init env0 rs)) ! i) = Returned"
proof (intro conjI allI impI)
  fix sched
  assume "mpc (calls (exec sched (init env0 rs)) ! i) = Returned"
  from returned_result[OF assms(1) this]
  obtain r where r: "ret (calls (exec sched (init env0 rs)) ! i) = Some r"
    and ok: "result_of (world (rs ! i)) r"
    by blast
  from result_of_process_error[OF ok assms(2,3,4)] r
  show "ret (calls (exec sched (init env0 rs)) ! i) =
          Some (if ctx_Err (world (rs ! i)) = Some context_DeadlineExceeded
                then Some (DeadlineExceeded
                            (''postgres dump: timeout: '' @ context_text context_DeadlineExceeded))
                else Some (DumpFailed (''postgres dump: '' @ e)))"
    by simp
next
  show "mpc (calls (exec (alone i) (init env0 rs)) ! i) = Returned"
    by (rule alone_returns[OF assms(1)])
qed

theorem deadline_exceeded_witness:
  "ret (calls (exec sched_process_error (init [] [orders_timeout])) ! 0) =
     Some (Some (DeadlineExceeded ''postgres dump: timeout: context deadline exceeded''))"
proof -
  have 1: "(0::nat) < length [orders_timeout]" by simp
  have 2: "pipe_err (world ([orders_timeout] ! 0)) = None" by code_simp
  have 3: "start_err (world ([orders_timeout] ! 0)) = None" by code_simp
  have 4: "wait_err (world ([orders_timeout] ! 0)) = Some ''signal: killed''" by code_simp
  have 5: "ctx_Err (world ([orders_timeout] ! 0)) = Some context_DeadlineExceeded" by code_simp
  have 6: "mpc (calls (exec sched_process_error (init [] [orders_timeout])) ! 0) = Returned"
    by code_simp
  from deadline_exceeded[OF 1 2 3 4, of "[]", THEN conjunct1, rule_format, OF 6] 5
  show ?thesis by simp
qed

subsection \<open>C1: a process error before the deadline\<close>

text \<open>
  C1, as the code has it. When the dump process was started, \<^verbatim>\<open>cmd.Wait\<close> reports an
  error and the context's deadline is not exceeded at the check, \<^verbatim>\<open>Backup\<close> returns
  the DumpFailed error whose text is \<^verbatim>\<open>postgres dump: \<close> followed by the text of the
  error of \<^verbatim>\<open>cmd.Wait\<close>. The captured standard error is not in the returned error:
  it has been written to the error log, without its trailing carriage returns and line
  feeds. A schedule exists on which the call returns.
\<close>

theorem dump_failed:
  assumes "i < length rs"
    and "pipe_err (world (rs ! i)) = None" and "start_err (world (rs ! i)) = None"
    and "wait_err (world (rs ! i)) = Some e"
    and "ctx_Err (world (rs ! i)) \<noteq> Some context_DeadlineExceeded"
  shows "(\<forall>sched. mpc (calls (exec sched (init env0 rs)) ! i) = Returned \<longrightarrow>
            ret (calls (exec sched (init env0 rs)) ! i) =
              Some (Some (DumpFailed (''postgres dump: '' @ e))) \<and>
            Logged ErrorLevel (TrimRight (errBuf (world (rs ! i))) crlf)
              \<in> set (events_of i (exec sched (init env0 rs)))) \<and>
         mpc (calls (exec (alone i) (init env0 rs)) ! i) = Returned \<and>
         (\<exists>t. errBuf (world (rs ! i)) = TrimRight (errBuf (world (rs ! i))) crlf @ t \<and>
              set t \<subseteq> {CHR 0x0D, CHR 0x0A}) \<and>
         (TrimRight (errBuf (world (rs ! i))) crlf = [] \<or>
          last (TrimRight (errBuf (world (rs ! i))) crlf) \<notin> {CHR 0x0D, CHR 0x0A})"
proof (intro conjI allI impI)
  fix sched
  assume R: "mpc (calls (exec sched (init env0 rs)) ! i) = Returned"
  from returned_result[OF assms(1) R]
  obtain r where r: "ret (calls (exec sched (init env0 rs)) ! i) = Some r"
    and ok: "result_of (world (rs ! i)) r"
    by blast
  from result_of_process_error[OF ok assms(2,3,4)] r assms(5)
  show res: "ret (calls (exec sched (init env0 rs)) ! i) =
          Some (Some (DumpFailed (''postgres dump: '' @ e)))"
    by simp
  from stderr_logged_exec[OF assms(1), of sched env0] res req_exec[OF assms(1), of sched env0]
  show "Logged ErrorLevel (TrimRight (errBuf (world (rs ! i))) crlf)
          \<in> set (events_of i (exec sched (init env0 rs)))"
    by (simp add: stderr_logged_def)
next
  show "mpc (calls (exec (alone i) (init env0 rs)) ! i) = Returned"
    by (rule alone_returns[OF assms(1)])
next
  from TrimRight_suffix[of "errBuf (world (rs ! i))" crlf]
  show "\<exists>t. errBuf (world (rs ! i)) = TrimRight (errBuf (world (rs ! i))) crlf @ t \<and>
             set t \<subseteq> {CHR 0x0D, CHR 0x0A}"
    by (simp add: crlf_def)
next
  from TrimRight_last[of "errBuf (world (rs ! i))" crlf]
  show "TrimRight (errBuf (world (rs ! i))) crlf = [] \<or>
        last (TrimRight (errBuf (world (rs ! i))) crlf) \<notin> {CHR 0x0D, CHR 0x0A}"
    by (simp add: crlf_def)
qed

theorem dump_failed_witness:
  "ret (calls (exec sched_process_error (init [] [orders_failing])) ! 0) =
     Some (Some (DumpFailed ''postgres dump: exit status 1'')) \<and>
   Logged ErrorLevel ''connection refused''
     \<in> set (events_of 0 (exec sched_process_error (init [] [orders_failing])))"
proof -
  have 1: "(0::nat) < length [orders_failing]" by simp
  have 2: "pipe_err (world ([orders_failing] ! 0)) = None" by code_simp
  have 3: "start_err (world ([orders_failing] ! 0)) = None" by code_simp
  have 4: "wait_err (world ([orders_failing] ! 0)) = Some ''exit status 1''" by code_simp
  have 5: "ctx_Err (world ([orders_failing] ! 0)) \<noteq> Some context_DeadlineExceeded" by code_simp
  have 6: "mpc (calls (exec sched_process_error (init [] [orders_failing])) ! 0) = Returned"
    by code_simp
  have 7: "TrimRight (errBuf (world ([orders_failing] ! 0))) crlf = ''connection refused''"
    by code_simp
  from dump_failed[OF 1 2 3 4 5, of "[]", THEN conjunct1, rule_format, OF 6]
  show ?thesis unfolding 7 by simp
qed

text \<open>
  The claim as written fails: the error returned for a dump that exits with status 1
  after writing \<^verbatim>\<open>connection refused\<close> does not contain that text.
\<close>

theorem dump_failed_counterexample:
  "mpc (calls (exec sched_process_error (init [] [orders_failing])) ! 0) = Returned \<and>
   wait_err (world orders_failing) = Some ''exit status 1'' \<and>
   ctx_Err (world orders_failing) = None \<and>
   TrimRight (errBuf (world orders_failing)) crlf = ''connection refused'' \<and>
   ret (calls (exec sched_process_error (init [] [orders_failing])) ! 0) =
     Some (Some (DumpFailed ''postgres dump: exit status 1'')) \<and>
   \<not> Contains (Error (DumpFailed ''postgres dump: exit status 1'')) ''connection refused''"
  by code_simp

subsection \<open>C10: missing credentials\<close>

text \<open>
  C10. A key that is absent from the credentials of the binding is looked up as the empty
  string, and the failed lookup is dropped; whatever the binding contains, a call whose
  pipe, process and upload succeed returns nil, and a schedule exists on which it returns.
\<close>

theorem missing_credentials:
  assumes "i < length rs"
    and "pipe_err (world (rs ! i)) = None" and "start_err (world (rs ! i)) = None"
    and "wait_err (world (rs ! i)) = None" and "upload_err (world (rs ! i)) = None"
  shows "(\<forall>sched. mpc (calls (exec sched (init env0 rs)) ! i) = Returned \<longrightarrow>
            ret (calls (exec sched (init env0 rs)) ! i) = Some None) \<and>
         mpc (calls (exec (alone i) (init env0 rs)) ! i) = Returned \<and>
         (\<forall>key. Credentials (binding (rs ! i)) key = None \<longrightarrow>
            CredentialString (binding (rs ! i)) key = ([], False)) \<and>
         (Credentials (binding (rs ! i)) ''host'' = None \<longrightarrow> host (binding (rs ! i)) = []) \<and>
         (Credentials (binding (rs ! i)) ''port'' = None \<longrightarrow> port (binding (rs ! i)) = []) \<and>
         (Credentials (binding (rs ! i)) ''database'' = None \<longrightarrow> database (binding (rs ! i)) = []) \<and>
         (Credentials (binding (rs ! i)) ''username'' = None \<longrightarrow> username (binding (rs ! i)) = []) \<and>
         (Credentials (binding (rs ! i)) ''password'' = None \<longrightarrow> password (binding (rs ! i)) = [])"
proof (intro conjI allI impI)
  fix sched
  assume R: "mpc (calls (exec sched (init env0 rs)) ! i) = Returned"
  from returned_result[OF assms(1) R]
  obtain r where r: "ret (calls (exec sched (init env0 rs)) ! i) = Some r"
    and ok: "result_of (world (rs ! i)) r"
    by blast
  from result_of_success[OF ok assms(2,3,4)] assms(5) r
  show "ret (calls (exec sched (init env0 rs)) ! i) = Some None"
    by simp
next
  show "mpc (calls (exec (alone i) (init env0 rs)) ! i) = Returned"
    by (rule alone_returns[OF assms(1)])
qed (simp_all add: CredentialString_def host_def port_def database_def username_def password_def)

theorem missing_credentials_witness:
  "ret (calls (exec sched_in_order (init [] [bare_ok])) ! 0) = Some None \<and>
   CredentialString (binding bare_ok) ''password'' = ([], False) \<and>
   host (binding bare_ok) = []"
proof -
  have 1: "(0::nat) < length [bare_ok]" by simp
  have 2: "pipe_err (world ([bare_ok] ! 0)) = None" by code_simp
  have 3: "start_err (world ([bare_ok] ! 0)) = None" by code_simp
  have 4: "wait_err (world ([bare_ok] ! 0)) = None" by code_simp
  have 5: "upload_err (world ([bare_ok] ! 0)) = None" by code_simp
  have 6: "mpc (calls (exec sched_in_order (init [] [bare_ok])) ! 0) = Returned"
    by code_simp
  have 7: "Credentials (binding ([bare_ok] ! 0)) ''password'' = None" by code_simp
  have 8: "Credentials (binding ([bare_ok] ! 0)) ''host'' = None" by code_simp
  note th = missing_credentials[OF 1 2 3 4 5, of "[]"]
  from th[THEN conjunct1, rule_format, OF 6]
       th[THEN conjunct2, THEN conjunct2, THEN conjunct1, rule_format, OF 7]
       th[THEN conjunct2, THEN conjunct2, THEN conjunct2, THEN conjunct1, rule_format, OF 8]
  show ?thesis by simp
qed

subsection \<open>Invariants of the log\<close>

lemma reqs_are_step: "reqs_are rs s \<Longrightarrow> reqs_are rs (step t s)"
  unfolding reqs_are_def
  by (rule every_call_step[where P = "\<lambda>i c es. req c = rs ! i"])
     (simp_all add: main_at_frame chain_at_frame copy_at_req)

lemma reqs_are_nth:
  assumes "reqs_are rs s" "i < length (calls s)"
  shows "i < length rs \<and> req (calls s ! i) = rs ! i"
  using assms unfolding reqs_are_def every_call_def by simp

lemma trace_all_step:
  assumes main: "\<And>i c g c' g'. i < length rs \<Longrightarrow> req c = rs ! i \<Longrightarrow>
                   main_at i (mpc c) c g = (c', g') \<Longrightarrow> list_all (Q (clock g) i) (emitted g g')"
      and chain: "\<And>i c g c' g'. i < length rs \<Longrightarrow> req c = rs ! i \<Longrightarrow>
                   chain_at i (cpc c) c g = (c', g') \<Longrightarrow> list_all (Q (clock g) i) (emitted g g')"
      and R: "reqs_are rs s"
      and T: "trace_all Q (length rs) s"
  shows "trace_all Q (length rs) (step t s)"
proof (cases rule: step_cases[of t s])
  case Stay
  with T show ?thesis by simp
next
  case Tick
  with T show ?thesis by (simp add: trace_all_def)
next
  case (Main i c' g')
  from reqs_are_nth[OF R Main(1)] have i: "i < length rs" and r: "req (calls s ! i) = rs ! i"
    by simp_all
  from main_at_frame[OF Main(2)]
  have tr: "trace g' = trace (glob s) @ map (\<lambda>e. (clock (glob s), i, e)) (emitted (glob s) g')"
    by simp
  from main[OF i r Main(2)] i
  have "list_all (\<lambda>(t, j, e). j < length rs \<and> Q t j e)
          (map (\<lambda>e. (clock (glob s), i, e)) (emitted (glob s) g'))"
    by (simp add: list_all_iff)
  with T show ?thesis
    unfolding Main(3) trace_all_def by (simp add: tr)
next
  case (Chain i c' g')
  from reqs_are_nth[OF R Chain(1)] have i: "i < length rs" and r: "req (calls s ! i) = rs ! i"
    by simp_all
  from chain_at_frame[OF Chain(2)]
  have tr: "trace g' = trace (glob s) @ map (\<lambda>e. (clock (glob s), i, e)) (emitted (glob s) g')"
    by simp
  from chain[OF i r Chain(2)] i
  have "list_all (\<lambda>(t, j, e). j < length rs \<and> Q t j e)
          (map (\<lambda>e. (clock (glob s), i, e)) (emitted (glob s) g'))"
    by (simp add: list_all_iff)
  with T show ?thesis
    unfolding Chain(3) trace_all_def by (simp add: tr)
next
  case (Copy i)
  with T show ?thesis by (simp add: trace_all_def)
qed

lemma trace_all_exec:
  assumes main: "\<And>i c g c' g'. i < length rs \<Longrightarrow> req c = rs ! i \<Longrightarrow>
                   main_at i (mpc c) c g = (c', g') \<Longrightarrow> list_all (Q (clock g) i) (emitted g g')"
      and chain: "\<And>i c g c' g'. i < length rs \<Longrightarrow> req c = rs ! i \<Longrightarrow>
                   chain_at i (cpc c) c g = (c', g') \<Longrightarrow> list_all (Q (clock g) i) (emitted g g')"
      and mem: "(t, i, e) \<in> set (trace (glob (exec sched (init env0 rs))))"
  shows "i < length rs \<and> Q t i e"
proof -
  have 0: "reqs_are rs (init env0 rs) \<and> trace_all Q (length rs) (init env0 rs)"
    by (simp add: reqs_are_def every_call_def trace_all_def init_def new_call_def)
  have "reqs_are rs (exec sched (init env0 rs)) \<and> trace_all Q (length rs) (exec sched (init env0 rs))"
  proof (rule exec_invariant[where P = "\<lambda>s. reqs_are rs s \<and> trace_all Q (length rs) s", OF 0])
    fix t s
    assume a: "reqs_are rs s \<and> trace_all Q (length rs) s"
    then have R: "reqs_are rs s" and T: "trace_all Q (length rs) s"
      by simp_all
    from reqs_are_step[OF R] trace_all_step[where Q = Q, OF main chain R T]
    show "reqs_are rs (step t s) \<and> trace_all Q (length rs) (step t s)"
      by simp
  qed
  then have "list_all (\<lambda>(t, i, e). i < length rs \<and> Q t i e)
               (trace (glob (exec sched (init env0 rs))))"
    by (simp add: trace_all_def)
  with mem show ?thesis
    by (auto simp: list_all_iff)
qed

lemma events_of_mem: "e \<in> set (events_of i s) \<longleftrightarrow> (\<exists>t. (t, i, e) \<in> set (trace (glob s)))"
  by (auto simp: events_of_def image_iff)

lemma upload_ok_main:
  assumes "main_at i pc c g = (c', g')"
  shows "list_all (upload_ok r) (emitted g g')"
  using assms
  by (cases pc)
     (auto simp: emitted_same emitted_emit emitted_logf emitted_Setenv emitted_unlock
           simp del: Sprintf.simps split: option.splits if_splits)

lemma upload_ok_chain:
  assumes "chain_at i pc c g = (c', g')"
  shows "list_all (upload_ok (req c)) (emitted g g')"
  using assms
  by (cases pc)
     (auto simp: emitted_same emitted_emit emitted_logf Let_def
           simp del: Sprintf.simps split: option.splits if_splits)

lemma header_ok_main:
  assumes "main_at i pc c g = (c', g')"
  shows "list_all (header_ok r t) (emitted g g')"
  using assms
  by (cases pc)
     (auto simp: emitted_same emitted_emit emitted_logf emitted_Setenv emitted_unlock
           simp del: Sprintf.simps split: option.splits if_splits)

lemma header_ok_chain:
  assumes "chain_at i pc c g = (c', g')"
  shows "list_all (header_ok (req c) (clock g)) (emitted g g')"
  using assms
  by (cases pc)
     (auto simp: emitted_same emitted_emit emitted_logf Let_def
           simp del: Sprintf.simps split: option.splits if_splits)

lemma start_ok_main:
  assumes "main_at i pc c g = (c', g')"
  shows "list_all (start_ok (req c)) (emitted g g')"
  using assms
  by (cases pc)
     (auto simp: emitted_same emitted_emit emitted_logf emitted_Setenv emitted_unlock
           simp del: Sprintf.simps split: option.splits if_splits)

lemma start_ok_chain:
  assumes "chain_at i pc c g = (c', g')"
  shows "list_all (start_ok r) (emitted g g')"
  using assms
  by (cases pc)
     (auto simp: emitted_same emitted_emit emitted_logf Let_def
           simp del: Sprintf.simps split: option.splits if_splits)

lemma gw_logged_exec:
  assumes "i < length rs"
  shows "gw_logged (calls (exec sched (init env0 rs)) ! i) (events_of i (exec sched (init env0 rs)))"
proof (rule every_call_exec[where P = "\<lambda>i c es. gw_logged c es", OF _ _ _ _ assms])
  fix j
  show "gw_logged (new_call (rs ! j)) []"
    by (simp add: gw_logged_def new_call_def)
next
  fix j c g c' g'
  assume a: "gw_logged c (events_in j (trace g))" "main_at j (mpc c) c g = (c', g')"
  have "gw c' = gw c"
    using a(2) by (cases "mpc c") (auto split: option.splits if_splits)
  with a(1) show "gw_logged c' (events_in j (trace g) @ emitted g g')"
    by (auto simp: gw_logged_def split: option.splits)
next
  fix j c g c' g'
  assume a: "gw_logged c (events_in j (trace g))" "chain_at j (cpc c) c g = (c', g')"
  have "gw c' = gw c \<or> (\<exists>h. gw c' = Some h \<and> emitted g g' = [NewWriter h])"
    using a(2)
    by (cases "cpc c") (auto simp: Let_def emitted_emit split: option.splits)
  with a(1) show "gw_logged c' (events_in j (trace g) @ emitted g g')"
    by (auto simp: gw_logged_def split: option.splits)
next
  fix c es
  assume "gw_logged c es"
  moreover have "gw (copy_at (ppc c) c) = gw c"
    by (cases "ppc c") simp_all
  ultimately show "gw_logged (copy_at (ppc c) c) es"
    by (simp add: gw_logged_def)
qed

lemma upload_paths_mem: "p \<in> set (upload_paths es) \<longleftrightarrow> UploadCalled p \<in> set es"
  by (induction es) (auto simp: upload_paths_def split: event.splits)

subsection \<open>C6: the object path\<close>

text \<open>
  C6. Whenever a call of \<^verbatim>\<open>Backup\<close> calls the upload, in a successful run or any
  other, the object path it passes is the label of the binding (the namespace), the name
  of the binding (the instance) and the file name, joined by \<^verbatim>\<open>/\<close>.
\<close>

theorem object_path:
  assumes "p \<in> set (upload_paths (events_of i (exec sched (init env0 rs))))"
  shows "i < length rs \<and>
         p = Label (binding (rs ! i)) @ ''/'' @ Name (binding (rs ! i)) @ ''/'' @ filename (rs ! i)"
proof -
  from assms obtain t where
    mem: "(t, i, UploadCalled p) \<in> set (trace (glob (exec sched (init env0 rs))))"
    by (auto simp: upload_paths_mem events_of_mem)
  have "i < length rs \<and> upload_ok (rs ! i) (UploadCalled p)"
  proof (rule trace_all_exec[where Q = "\<lambda>t i e. upload_ok (rs ! i) e", OF _ _ mem])
    fix j c g c' g'
    assume "main_at j (mpc c) c g = (c', g')"
    then show "list_all (upload_ok (rs ! j)) (emitted g g')"
      by (rule upload_ok_main)
  next
    fix j c g c' g'
    assume "req c = rs ! j" "chain_at j (cpc c) c g = (c', g')"
    with upload_ok_chain[of j "cpc c" c g c' g']
    show "list_all (upload_ok (rs ! j)) (emitted g g')"
      by simp
  qed
  then show ?thesis
    by (simp add: objectPath_def)
qed

theorem object_path_witness:
  "ret (calls (exec sched_in_order (init [] [orders_ok])) ! 0) = Some None \<and>
   upload_paths (events_of 0 (exec sched_in_order (init [] [orders_ok]))) = [''svc/instance1/backup.sql.gz''] \<and>
   ''svc/instance1/backup.sql.gz'' =
     Label (binding ([orders_ok] ! 0)) @ ''/'' @ Name (binding ([orders_ok] ! 0)) @ ''/'' @
     filename ([orders_ok] ! 0)"
proof -
  have 1: "upload_paths (events_of 0 (exec sched_in_order (init [] [orders_ok]))) =
             [''svc/instance1/backup.sql.gz'']"
    by code_simp
  have 2: "ret (calls (exec sched_in_order (init [] [orders_ok])) ! 0) = Some None"
    by code_simp
  have 3: "''svc/instance1/backup.sql.gz''
             \<in> set (upload_paths (events_of 0 (exec sched_in_order (init [] [orders_ok]))))"
    unfolding 1 by simp
  from object_path[OF 3] 1 2 show ?thesis by blast
qed

subsection \<open>C8: the gzip header\<close>

text \<open>
  C8. The gzip writer of a call carries the file name of the call in its header, and
  as its modification time the clock reading of the step that created the writer
  (lines 80 to 82, just before the copy into the writer is launched): the log has the
  creation of this very writer at that time.
\<close>

theorem gzip_header:
  assumes "i < length rs"
    and "gw (calls (exec sched (init env0 rs)) ! i) = Some h"
  shows "gz_Name h = filename (rs ! i) \<and>
         (gz_ModTime h, i, NewWriter h) \<in> set (trace (glob (exec sched (init env0 rs))))"
proof -
  from gw_logged_exec[OF assms(1), of sched env0] assms(2)
  obtain t where
    mem: "(t, i, NewWriter h) \<in> set (trace (glob (exec sched (init env0 rs))))"
    by (auto simp: gw_logged_def events_of_mem)
  have "i < length rs \<and> header_ok (rs ! i) t (NewWriter h)"
  proof (rule trace_all_exec[where Q = "\<lambda>t i e. header_ok (rs ! i) t e", OF _ _ mem])
    fix j c g c' g'
    assume "main_at j (mpc c) c g = (c', g')"
    then show "list_all (header_ok (rs ! j) (clock g)) (emitted g g')"
      by (rule header_ok_main)
  next
    fix j c g c' g'
    assume "req c = rs ! j" "chain_at j (cpc c) c g = (c', g')"
    with header_ok_chain[of j "cpc c" c g c' g']
    show "list_all (header_ok (rs ! j) (clock g)) (emitted g g')"
      by simp
  qed
  with mem show ?thesis by auto
qed

theorem gzip_header_witness:
  "gw (calls (exec sched_in_order (init [] [orders_ok])) ! 0) =
     Some \<lparr>gz_Name = ''backup.sql.gz'', gz_ModTime = 2\<rparr> \<and>
   filename ([orders_ok] ! 0) = ''backup.sql.gz'' \<and>
   (2, 0, NewWriter \<lparr>gz_Name = ''backup.sql.gz'', gz_ModTime = 2\<rparr>)
     \<in> set (trace (glob (exec sched_in_order (init [] [orders_ok]))))"
proof -
  have 1: "(0::nat) < length [orders_ok]" by simp
  have 2: "gw (calls (exec sched_in_order (init [] [orders_ok])) ! 0) =
             Some \<lparr>gz_Name = ''backup.sql.gz'', gz_ModTime = 2\<rparr>"
    by code_simp
  have 3: "filename ([orders_ok] ! 0) = ''backup.sql.gz''"
    by code_simp
  from gzip_header[OF 1 2, THEN conjunct2]
  have 4: "(2, 0, NewWriter \<lparr>gz_Name = ''backup.sql.gz'', gz_ModTime = 2\<rparr>)
             \<in> set (trace (glob (exec sched_in_order (init [] [orders_ok]))))"
    by simp
  from 2 3 4 show ?thesis by blast
qed

subsection \<open>C7: the dump command\<close>

text \<open>
  C7, as the code has it. The process a call starts runs \<^verbatim>\<open>pg_dump\<close> with the
  database name and \<^verbatim>\<open>-C\<close> (create) when the database name of the binding is not
  empty, and \<^verbatim>\<open>pg_dumpall\<close> otherwise; in both cases the command ends with
  \<^verbatim>\<open>-c\<close> (clean) and \<^verbatim>\<open>--no-password\<close>, and these are all its arguments: no flag
  asks for verbose output, and the create flag is passed in the first case only.
\<close>

theorem dump_command:
  assumes "Started cmd env \<in> set (events_of i (exec sched (init env0 rs)))"
  shows "i < length rs \<and>
         cmd = (if database (binding (rs ! i)) \<noteq> []
                then [''pg_dump'', database (binding (rs ! i)), ''-C'', ''-c'', ''--no-password'']
                else [''pg_dumpall'', ''-c'', ''--no-password''])"
proof -
  from assms obtain t where
    mem: "(t, i, Started cmd env) \<in> set (trace (glob (exec sched (init env0 rs))))"
    by (auto simp: events_of_mem)
  have "i < length rs \<and> start_ok (rs ! i) (Started cmd env)"
  proof (rule trace_all_exec[where Q = "\<lambda>t i e. start_ok (rs ! i) e", OF _ _ mem])
    fix j c g c' g'
    assume "req c = rs ! j" "main_at j (mpc c) c g = (c', g')"
    with start_ok_main[of j "mpc c" c g c' g']
    show "list_all (start_ok (rs ! j)) (emitted g g')"
      by simp
  next
    fix j c g c' g'
    assume "chain_at j (cpc c) c g = (c', g')"
    then show "list_all (start_ok (rs ! j)) (emitted g g')"
      by (rule start_ok_chain)
  qed
  then show ?thesis
    by (simp add: command_def)
qed

theorem dump_command_witness:
  "Started [''pg_dump'', ''orders'', ''-C'', ''-c'', ''--no-password'']
     [(''PGUSER'', ''admin''), (''PGPASSWORD'', ''s3cret''), (''PGHOST'', ''db.local''), (''PGPORT'', [])]
     \<in> set (events_of 0 (exec sched_in_order (init [] [orders_ok, bare_ok]))) \<and>
   database (binding ([orders_ok, bare_ok] ! 0)) = ''orders'' \<and>
   Started [''pg_dumpall'', ''-c'', ''--no-password'']
     [(''PGUSER'', []), (''PGPASSWORD'', []), (''PGHOST'', []), (''PGPORT'', [])]
     \<in> set (events_of 1 (exec (sched_in_order @ alone 1) (init [] [orders_ok, bare_ok]))) \<and>
   database (binding ([orders_ok, bare_ok] ! 1)) = []"
proof -
  have 1: "Started [''pg_dump'', ''orders'', ''-C'', ''-c'', ''--no-password'']
             [(''PGUSER'', ''admin''), (''PGPASSWORD'', ''s3cret''), (''PGHOST'', ''db.local''), (''PGPORT'', [])]
           \<in> set (events_of 0 (exec sched_in_order (init [] [orders_ok, bare_ok])))"
    by code_simp
  have 2: "Started [''pg_dumpall'', ''-c'', ''--no-password'']
             [(''PGUSER'', []), (''PGPASSWORD'', []), (''PGHOST'', []), (''PGPORT'', [])]
           \<in> set (events_of 1 (exec (sched_in_order @ alone 1) (init [] [orders_ok, bare_ok])))"
    by code_simp
  have 3: "database (binding ([orders_ok, bare_ok] ! 0)) = ''orders''"
    by code_simp
  have 4: "database (binding ([orders_ok, bare_ok] ! 1)) = []"
    by code_simp
  from dump_command[OF 1] dump_command[OF 2] 1 2 3 4 show ?thesis by blast
qed

text \<open>
  The claim as written fails: no argument of the command built for a binding with the
  database \<^verbatim>\<open>orders\<close> asks for verbose output, and the command built for a binding
  without a database name has no create flag.
\<close>

theorem dump_command_counterexample:
  "command orders_binding = [''pg_dump'', ''orders'', ''-C'', ''-c'', ''--no-password''] \<and>
   ''-v'' \<notin> set (command orders_binding) \<and>
   ''--verbose'' \<notin> set (command orders_binding) \<and>
   command bare_binding = [''pg_dumpall'', ''-c'', ''--no-password''] \<and>
   ''-v'' \<notin> set (command bare_binding) \<and>
   ''--verbose'' \<notin> set (command bare_binding) \<and>
   ''-C'' \<notin> set (command bare_binding) \<and>
   ''--create'' \<notin> set (command bare_binding)"
  by code_simp

subsection \<open>The wait group\<close>

lemma takeWhile_absent:
  "b \<notin> set es \<Longrightarrow> takeWhile (\<lambda>x. x \<noteq> b) (es @ ys) = es @ takeWhile (\<lambda>x. x \<noteq> b) ys"
  by (induction es) auto

lemma before_snoc:
  "before a b (es @ [e]) = (if b \<in> set es then before a b es else e = b \<and> a \<in> set es)"
proof (cases "b \<in> set es")
  case True
  then have "takeWhile (\<lambda>x. x \<noteq> b) (es @ [e]) = takeWhile (\<lambda>x. x \<noteq> b) es"
    by (simp add: takeWhile_append1)
  with True show ?thesis by (simp add: before_def)
next
  case False
  from takeWhile_absent[OF False, of "[e]"] False show ?thesis
    by (auto simp: before_def)
qed

lemma wg_inv_other:
  assumes "wg_inv c es" "e \<noteq> WaitGroupAdd" "e \<noteq> ChainFinished" "e \<noteq> WaitGroupWaited"
  shows "wg_inv c (es @ [e])"
  using assms unfolding wg_inv_def by (auto simp: before_snoc)

lemma wg_inv_cong:
  assumes "wg_inv c es" "cpc c' = cpc c" "uploadWait c' = uploadWait c"
  shows "wg_inv c' es"
  using assms unfolding wg_inv_def by simp

lemma wg_inv_waited:
  assumes "wg_inv c es" "uploadWait c = 0"
  shows "wg_inv c (es @ [WaitGroupWaited])"
  using assms unfolding wg_inv_def by (auto simp: before_snoc split: if_splits)

lemma wg_inv_main:
  assumes "wg_inv c es" "flow c" "main_at i (mpc c) c g = (c', g')"
  shows "wg_inv c' (es @ emitted g g')"
proof (cases "mpc c = L74 \<or> mpc c = L106")
  case True
  then show ?thesis
  proof
    assume pc: "mpc c = L74"
    with assms(2) have "cpc c = C_idle" by (simp add: flow_def unstarted_def)
    with assms(1,3) pc show ?thesis
      unfolding wg_inv_def by (auto simp: emitted_same)
  next
    assume pc: "mpc c = L106"
    show ?thesis
    proof (cases "uploadWait c = 0")
      case True
      with assms(3) pc have c': "cpc c' = cpc c" "uploadWait c' = uploadWait c"
        and em: "emitted g g' = [WaitGroupWaited]"
        by (auto simp: emitted_emit)
      from wg_inv_waited[OF assms(1) True] have "wg_inv c (es @ [WaitGroupWaited])" .
      then show ?thesis unfolding em by (rule wg_inv_cong) (simp_all add: c')
    next
      case False
      with assms(3) pc have "c' = c" "emitted g g' = []"
        by (auto simp: emitted_same)
      with assms(1) show ?thesis by simp
    qed
  qed
next
  case False
  with assms(3) have same: "cpc c' = cpc c" "uploadWait c' = uploadWait c"
    by (cases "mpc c"; auto split: option.splits if_splits)+
  from False assms(3)
  have "emitted g g' = [] \<or>
        (\<exists>e. emitted g g' = [e] \<and> e \<noteq> WaitGroupAdd \<and> e \<noteq> ChainFinished \<and> e \<noteq> WaitGroupWaited)"
    by (cases "mpc c")
       (auto simp: emitted_same emitted_emit emitted_logf emitted_Setenv emitted_unlock
             simp del: Sprintf.simps split: option.splits if_splits)
  then show ?thesis
  proof
    assume "emitted g g' = []"
    with assms(1) same show ?thesis by (simp add: wg_inv_cong[OF assms(1)])
  next
    assume "\<exists>e. emitted g g' = [e] \<and> e \<noteq> WaitGroupAdd \<and> e \<noteq> ChainFinished \<and> e \<noteq> WaitGroupWaited"
    then obtain e where e: "emitted g g' = [e]" "e \<noteq> WaitGroupAdd" "e \<noteq> ChainFinished"
      "e \<noteq> WaitGroupWaited"
      by blast
    from wg_inv_other[OF assms(1) e(2,3,4)] have "wg_inv c (es @ [e])" .
    then show ?thesis unfolding e(1) by (rule wg_inv_cong) (simp_all add: same)
  qed
qed

lemma wg_inv_chain:
  assumes "wg_inv c es" "chain_at i (cpc c) c g = (c', g')"
  shows "wg_inv c' (es @ emitted g g')"
  using assms unfolding wg_inv_def
  by (cases "cpc c")
     (auto simp: emitted_same emitted_emit emitted_logf Let_def before_snoc
           simp del: Sprintf.simps split: option.splits if_splits)

lemma wg_inv_copy: "wg_inv c es \<Longrightarrow> wg_inv (copy_at (ppc c) c) es"
  by (erule wg_inv_cong; cases "ppc c"; simp)

lemma waited_main:
  assumes "waited c es" "flow c" "main_at i (mpc c) c g = (c', g')"
  shows "waited c' (es @ emitted g g')"
  using assms unfolding waited_def flow_def
  by (cases "mpc c")
     (auto simp: emitted_emit unstarted_def started_ok_def
           simp del: Sprintf.simps split: option.splits if_splits)

lemma waited_chain:
  assumes "waited c es" "chain_at i (cpc c) c g = (c', g')"
  shows "waited c' (es @ emitted g g')"
proof -
  have "mpc c' = mpc c \<and> req c' = req c"
    using assms(2) by (cases "cpc c") (auto simp: Let_def split: option.splits)
  with assms(1) show ?thesis
    unfolding waited_def by auto
qed

lemma waited_copy: "waited c es \<Longrightarrow> waited (copy_at (ppc c) c) es"
  unfolding waited_def by (cases "ppc c") simp_all

lemma wait_inv_exec:
  assumes "i < length rs"
  shows "wait_inv (calls (exec sched (init env0 rs)) ! i) (events_of i (exec sched (init env0 rs)))"
proof (rule every_call_exec[where P = "\<lambda>i c es. wait_inv c es", OF _ _ _ _ assms])
  fix j
  show "wait_inv (new_call (rs ! j)) []"
    by (simp add: wait_inv_def flow_def wg_inv_def waited_def new_call_def unstarted_def)
next
  fix j c g c' g'
  assume a: "wait_inv c (events_in j (trace g))" and m: "main_at j (mpc c) c g = (c', g')"
  from a have f: "flow c" and w: "wg_inv c (events_in j (trace g))"
    and d: "waited c (events_in j (trace g))"
    unfolding wait_inv_def by simp_all
  from flow_main[OF f m] wg_inv_main[OF w f m] waited_main[OF d f m]
  show "wait_inv c' (events_in j (trace g) @ emitted g g')"
    unfolding wait_inv_def by simp
next
  fix j c g c' g'
  assume a: "wait_inv c (events_in j (trace g))" and m: "chain_at j (cpc c) c g = (c', g')"
  from a have f: "flow c" and w: "wg_inv c (events_in j (trace g))"
    and d: "waited c (events_in j (trace g))"
    unfolding wait_inv_def by simp_all
  from flow_chain[OF f m] wg_inv_chain[OF w m] waited_chain[OF d m]
  show "wait_inv c' (events_in j (trace g) @ emitted g g')"
    unfolding wait_inv_def by simp
next
  fix c es
  assume a: "wait_inv c es"
  from a have f: "flow c" and w: "wg_inv c es" and d: "waited c es"
    unfolding wait_inv_def by simp_all
  from flow_copy[OF f] wg_inv_copy[OF w] waited_copy[OF d]
  show "wait_inv (copy_at (ppc c) c) es"
    unfolding wait_inv_def by simp
qed

lemma cancelled_main:
  assumes "cancelled c" "flow c" "main_at i (mpc c) c g = (c', g')"
  shows "cancelled c'"
  using assms unfolding cancelled_def flow_def
  by (cases "mpc c")
     (auto simp: unstarted_def started_ok_def simp del: Sprintf.simps
           split: option.splits if_splits)

lemma cancelled_chain:
  assumes "cancelled c" "chain_at i (cpc c) c g = (c', g')"
  shows "cancelled c'"
proof -
  have "mpc c' = mpc c \<and> req c' = req c \<and> uploadCtx_done c' = uploadCtx_done c"
    using assms(2) by (cases "cpc c") (auto simp: Let_def split: option.splits)
  with assms(1) show ?thesis
    unfolding cancelled_def by simp
qed

lemma cancelled_copy: "cancelled c \<Longrightarrow> cancelled (copy_at (ppc c) c)"
  unfolding cancelled_def by (cases "ppc c") simp_all

lemma cancel_inv_exec:
  assumes "i < length rs"
  shows "cancel_inv (calls (exec sched (init env0 rs)) ! i)"
proof (rule every_call_exec[where P = "\<lambda>i c es. cancel_inv c", OF _ _ _ _ assms])
  fix j
  show "cancel_inv (new_call (rs ! j))"
    by (simp add: cancel_inv_def flow_def cancelled_def new_call_def unstarted_def)
next
  fix j c g c' g'
  assume a: "cancel_inv c" and m: "main_at j (mpc c) c g = (c', g')"
  from a have f: "flow c" and d: "cancelled c"
    unfolding cancel_inv_def by simp_all
  from flow_main[OF f m] cancelled_main[OF d f m]
  show "cancel_inv c'"
    unfolding cancel_inv_def by simp
next
  fix j c g c' g'
  assume a: "cancel_inv c" and m: "chain_at j (cpc c) c g = (c', g')"
  from a have f: "flow c" and d: "cancelled c"
    unfolding cancel_inv_def by simp_all
  from flow_chain[OF f m] cancelled_chain[OF d m]
  show "cancel_inv c'"
    unfolding cancel_inv_def by simp
next
  fix c
  assume a: "cancel_inv c"
  from a have f: "flow c" and d: "cancelled c"
    unfolding cancel_inv_def by simp_all
  from flow_copy[OF f] cancelled_copy[OF d]
  show "cancel_inv (copy_at (ppc c) c)"
    unfolding cancel_inv_def by simp
qed

subsection \<open>C2: waiting for the upload goroutine\<close>

text \<open>
  C2, as the code has it. Take a call whose dump process was started and that has
  returned. If \<^verbatim>\<open>cmd.Wait\<close> reported an error, the result is that error (as
  DeadlineExceeded or DumpFailed), whatever the upload reports, and \<^verbatim>\<open>Backup\<close> has
  not waited for the upload goroutine: it has cancelled the context of the upload. If
  \<^verbatim>\<open>cmd.Wait\<close> reported no error, \<^verbatim>\<open>uploadWait.Wait()\<close> has returned, and if the
  upload goroutine had registered with the wait group before that, it has finished, and
  finished before \<^verbatim>\<open>uploadWait.Wait()\<close> returned.
\<close>

theorem chain_wait:
  assumes "i < length rs"
    and "pipe_err (world (rs ! i)) = None" and "start_err (world (rs ! i)) = None"
    and "mpc (calls (exec sched (init env0 rs)) ! i) = Returned"
  shows "(\<forall>e. wait_err (world (rs ! i)) = Some e \<longrightarrow>
            ret (calls (exec sched (init env0 rs)) ! i) =
              Some (if ctx_Err (world (rs ! i)) = Some context_DeadlineExceeded
                    then Some (DeadlineExceeded ''postgres dump: timeout: context deadline exceeded'')
                    else Some (DumpFailed (''postgres dump: '' @ e)))) \<and>
         uploadCtx_done (calls (exec sched (init env0 rs)) ! i) \<and>
         (wait_err (world (rs ! i)) = None \<longrightarrow>
            WaitGroupWaited \<in> set (events_of i (exec sched (init env0 rs))) \<and>
            (before WaitGroupAdd WaitGroupWaited (events_of i (exec sched (init env0 rs))) \<longrightarrow>
               before ChainFinished WaitGroupWaited (events_of i (exec sched (init env0 rs))) \<and>
               cpc (calls (exec sched (init env0 rs)) ! i) = C_done))"
proof (intro conjI allI impI)
  fix e
  assume w: "wait_err (world (rs ! i)) = Some e"
  from returned_result[OF assms(1,4)]
  obtain r where r: "ret (calls (exec sched (init env0 rs)) ! i) = Some r"
    and ok: "result_of (world (rs ! i)) r"
    by blast
  from result_of_process_error[OF ok assms(2,3) w] r
  show "ret (calls (exec sched (init env0 rs)) ! i) =
          Some (if ctx_Err (world (rs ! i)) = Some context_DeadlineExceeded
                then Some (DeadlineExceeded ''postgres dump: timeout: context deadline exceeded'')
                else Some (DumpFailed (''postgres dump: '' @ e)))"
    by simp
next
  from cancel_inv_exec[OF assms(1), of sched env0] assms(2,3,4) req_exec[OF assms(1), of sched env0]
  show "uploadCtx_done (calls (exec sched (init env0 rs)) ! i)"
    by (simp add: cancel_inv_def cancelled_def)
next
  assume w: "wait_err (world (rs ! i)) = None"
  from wait_inv_exec[OF assms(1), of sched env0] assms(2,3,4) w req_exec[OF assms(1), of sched env0]
  show "WaitGroupWaited \<in> set (events_of i (exec sched (init env0 rs)))"
    by (simp add: wait_inv_def waited_def)
next
  assume w: "wait_err (world (rs ! i)) = None"
    and b: "before WaitGroupAdd WaitGroupWaited (events_of i (exec sched (init env0 rs)))"
  from b have "WaitGroupWaited \<in> set (events_of i (exec sched (init env0 rs)))"
    by (simp add: before_def)
  with wait_inv_exec[OF assms(1), of sched env0] b
  show "before ChainFinished WaitGroupWaited (events_of i (exec sched (init env0 rs)))"
    by (simp add: wait_inv_def wg_inv_def)
next
  assume w: "wait_err (world (rs ! i)) = None"
    and b: "before WaitGroupAdd WaitGroupWaited (events_of i (exec sched (init env0 rs)))"
  from b have m: "WaitGroupWaited \<in> set (events_of i (exec sched (init env0 rs)))"
    by (simp add: before_def)
  with wait_inv_exec[OF assms(1), of sched env0] b
  have "before ChainFinished WaitGroupWaited (events_of i (exec sched (init env0 rs)))"
    by (simp add: wait_inv_def wg_inv_def)
  then have "ChainFinished \<in> set (events_of i (exec sched (init env0 rs)))"
    by (auto simp: before_def dest: set_takeWhileD)
  with wait_inv_exec[OF assms(1), of sched env0]
  show "cpc (calls (exec sched (init env0 rs)) ! i) = C_done"
    by (simp add: wait_inv_def wg_inv_def)
qed

theorem chain_wait_witness:
  "ret (calls (exec sched_process_error (init [] [orders_failing])) ! 0) =
     Some (Some (DumpFailed ''postgres dump: exit status 1'')) \<and>
   upload_err (world ([orders_failing] ! 0)) = Some ''unexpected EOF'' \<and>
   uploadCtx_done (calls (exec sched_process_error (init [] [orders_failing])) ! 0) \<and>
   before WaitGroupAdd WaitGroupWaited (events_of 0 (exec sched_in_order (init [] [orders_ok]))) \<and>
   before ChainFinished WaitGroupWaited (events_of 0 (exec sched_in_order (init [] [orders_ok]))) \<and>
   cpc (calls (exec sched_in_order (init [] [orders_ok])) ! 0) = C_done"
proof -
  have 1: "(0::nat) < length [orders_failing]" by simp
  have 2: "pipe_err (world ([orders_failing] ! 0)) = None" by code_simp
  have 3: "start_err (world ([orders_failing] ! 0)) = None" by code_simp
  have 4: "mpc (calls (exec sched_process_error (init [] [orders_failing])) ! 0) = Returned"
    by code_simp
  have 5: "wait_err (world ([orders_failing] ! 0)) = Some ''exit status 1''" by code_simp
  have 6: "ctx_Err (world ([orders_failing] ! 0)) \<noteq> Some context_DeadlineExceeded" by code_simp
  have 7: "upload_err (world ([orders_failing] ! 0)) = Some ''unexpected EOF''" by code_simp
  note a = chain_wait[OF 1 2 3 4]
  from a[THEN conjunct1, rule_format, OF 5] 6
  have r1: "ret (calls (exec sched_process_error (init [] [orders_failing])) ! 0) =
              Some (Some (DumpFailed ''postgres dump: exit status 1''))"
    by simp
  from a[THEN conjunct2, THEN conjunct1]
  have r2: "uploadCtx_done (calls (exec sched_process_error (init [] [orders_failing])) ! 0)" .
  have 11: "(0::nat) < length [orders_ok]" by simp
  have 12: "pipe_err (world ([orders_ok] ! 0)) = None" by code_simp
  have 13: "start_err (world ([orders_ok] ! 0)) = None" by code_simp
  have 14: "mpc (calls (exec sched_in_order (init [] [orders_ok])) ! 0) = Returned"
    by code_simp
  have 15: "wait_err (world ([orders_ok] ! 0)) = None" by code_simp
  have 16: "before WaitGroupAdd WaitGroupWaited (events_of 0 (exec sched_in_order (init [] [orders_ok])))"
    by code_simp
  note b = chain_wait[OF 11 12 13 14, THEN conjunct2, THEN conjunct2, rule_format, OF 15]
  from b[THEN conjunct2, rule_format, OF 16] r1 r2 7 16
  show ?thesis by blast
qed

text \<open>
  The claim as written fails. With a dump that exits with status 1, \<^verbatim>\<open>Backup\<close> has
  returned while the upload goroutine is still inside the upload. And with a dump that
  succeeds, \<^verbatim>\<open>Backup\<close> can return nil before the upload goroutine has run its first
  line, \<^verbatim>\<open>uploadWait.Add(1)\<close>.
\<close>

theorem chain_wait_counterexample:
  "mpc (calls (exec sched_process_error (init [] [orders_failing])) ! 0) = Returned \<and>
   cpc (calls (exec sched_process_error (init [] [orders_failing])) ! 0) = C90 \<and>
   ChainFinished \<notin> set (events_of 0 (exec sched_process_error (init [] [orders_failing]))) \<and>
   mpc (calls (exec (alone 0) (init [] [orders_ok])) ! 0) = Returned \<and>
   ret (calls (exec (alone 0) (init [] [orders_ok])) ! 0) = Some None \<and>
   cpc (calls (exec (alone 0) (init [] [orders_ok])) ! 0) = C76 \<and>
   ChainFinished \<notin> set (events_of 0 (exec (alone 0) (init [] [orders_ok])))"
  by code_simp

subsection \<open>The result of the copy is never read\<close>

lemma main_at_forget:
  "main_at i pc (forget_call c) g = (forget_call (fst (main_at i pc c g)), snd (main_at i pc c g))"
  by (cases pc)
     (simp_all add: forget_call_def forget_def del: Sprintf.simps split: option.splits)

lemma chain_at_forget:
  "chain_at i pc (forget_call c) g = (forget_call (fst (chain_at i pc c g)), snd (chain_at i pc c g))"
  by (cases pc)
     (simp_all add: forget_call_def forget_def Let_def objectPath_def del: Sprintf.simps
           split: option.splits)

lemma copy_at_forget: "copy_at pc (forget_call c) = forget_call (copy_at pc c)"
  by (cases pc) (simp_all add: forget_call_def)

lemma forget_call_pcs:
  "mpc (forget_call c) = mpc c" "cpc (forget_call c) = cpc c" "ppc (forget_call c) = ppc c"
  "ret (forget_call c) = ret c"
  by (simp_all add: forget_call_def)

lemma run_thread_forget:
  assumes "\<And>c g. f i (forget_call c) g = (forget_call (fst (f i c g)), snd (f i c g))"
  shows "forget_state (run_thread f i s) = run_thread f i (forget_state s)"
proof (cases "i < length (calls s)")
  case True
  obtain c' g' where st: "f i (calls s ! i) (glob s) = (c', g')"
    by (cases "f i (calls s ! i) (glob s)")
  with True assms[of "calls s ! i" "glob s"] show ?thesis
    by (simp add: run_thread_def forget_state_def map_update)
next
  case False
  then show ?thesis
    by (simp add: run_thread_def forget_state_def)
qed

lemma step_forget: "forget_state (step t s) = step t (forget_state s)"
proof (cases t)
  case (Main i)
  then show ?thesis
    by (simp add: run_thread_forget main_step_def main_at_forget forget_call_pcs)
next
  case (Chain i)
  then show ?thesis
    by (simp add: run_thread_forget chain_step_def chain_at_forget forget_call_pcs)
next
  case (Copy i)
  then show ?thesis
    by (simp add: run_thread_forget copy_step_def copy_at_forget forget_call_pcs)
next
  case Tick
  then show ?thesis
    by (simp add: forget_state_def)
qed

lemma exec_forget: "forget_state (exec sched s) = exec sched (forget_state s)"
  by (induction sched arbitrary: s) (simp_all add: exec_Nil exec_Cons step_forget)

lemma init_forget: "forget_state (init env0 rs) = init env0 (map forget rs)"
  by (simp add: forget_state_def init_def new_call_def forget_call_def)

lemma ret_forget: "map ret (calls (forget_state s)) = map ret (calls s)"
  by (simp add: forget_state_def forget_call_def comp_def)

lemma trace_forget: "trace (glob (forget_state s)) = trace (glob s)"
  by (simp add: forget_state_def)

lemma flow_ret:
  assumes "flow c" "ret c = Some r"
  shows "result_of (world (req c)) r"
  using assms unfolding flow_def
  by (cases "mpc c") (auto simp: unstarted_def started_ok_def returned_ok_def)

lemma result_of_upload:
  assumes "result_of w (Some (UploadFailed e))"
  shows "upload_err w = Some e"
  using assms by (cases "upload_err w") (auto simp: result_of_def split: option.splits if_splits)

subsection \<open>C9: an error of the copy is dropped\<close>

text \<open>
  C9. Runs of two lists of requests that differ at most in the results of
  \<^verbatim>\<open>io.Copy\<close> have, on every schedule, the same results of \<^verbatim>\<open>Backup\<close> and the same
  log: an error of the copy shows nowhere. And an UploadFailed result of a call is the
  error its upload returned.
\<close>

theorem copy_error_discarded:
  assumes "map forget rs' = map forget rs"
  shows "map ret (calls (exec sched (init env0 rs'))) =
           map ret (calls (exec sched (init env0 rs))) \<and>
         trace (glob (exec sched (init env0 rs'))) = trace (glob (exec sched (init env0 rs))) \<and>
         (\<forall>i e. i < length rs \<longrightarrow>
            ret (calls (exec sched (init env0 rs)) ! i) = Some (Some (UploadFailed e)) \<longrightarrow>
            upload_err (world (rs ! i)) = Some e)"
proof (intro conjI allI impI)
  have eq: "forget_state (exec sched (init env0 rs')) = forget_state (exec sched (init env0 rs))"
    by (simp add: exec_forget init_forget assms)
  from arg_cong[OF eq, of "\<lambda>s. map ret (calls s)"]
  show "map ret (calls (exec sched (init env0 rs'))) = map ret (calls (exec sched (init env0 rs)))"
    by (simp add: ret_forget)
  from arg_cong[OF eq, of "\<lambda>s. trace (glob s)"]
  show "trace (glob (exec sched (init env0 rs'))) = trace (glob (exec sched (init env0 rs)))"
    by (simp add: trace_forget)
next
  fix i e
  assume i: "i < length rs"
    and r: "ret (calls (exec sched (init env0 rs)) ! i) = Some (Some (UploadFailed e))"
  from flow_ret[OF flow_exec[OF i] r] req_exec[OF i, of sched env0]
  have "result_of (world (rs ! i)) (Some (UploadFailed e))"
    by simp
  then show "upload_err (world (rs ! i)) = Some e"
    by (rule result_of_upload)
qed

theorem copy_error_discarded_witness:
  "copy_err (world orders_denied) = Some ''io: read/write on closed pipe'' \<and>
   copy_err (world orders_denied_copied) = None \<and>
   map ret (calls (exec sched_in_order (init [] [orders_denied]))) =
     map ret (calls (exec sched_in_order (init [] [orders_denied_copied]))) \<and>
   ret (calls (exec sched_in_order (init [] [orders_denied_copied])) ! 0) =
     Some (Some (UploadFailed ''AccessDenied'')) \<and>
   upload_err (world ([orders_denied_copied] ! 0)) = Some ''AccessDenied''"
proof -
  have 1: "map forget [orders_denied] = map forget [orders_denied_copied]"
    by (simp add: forget_def orders_denied_def orders_denied_copied_def upload_denied_def
          all_fine_def)
  have 2: "(0::nat) < length [orders_denied_copied]" by simp
  have 3: "ret (calls (exec sched_in_order (init [] [orders_denied_copied])) ! 0) =
             Some (Some (UploadFailed ''AccessDenied''))"
    by code_simp
  have 4: "copy_err (world orders_denied) = Some ''io: read/write on closed pipe''"
    by code_simp
  have 5: "copy_err (world orders_denied_copied) = None"
    by code_simp
  note th = copy_error_discarded[OF 1, of sched_in_order "[]"]
  from th[THEN conjunct1] th[THEN conjunct2, THEN conjunct2, rule_format, OF 2 3] 3 4 5
  show ?thesis by blast
qed

subsection \<open>The environment\<close>

lemma main_at_others:
  assumes "main_at i pc c g = (c', g')" "k \<notin> pg_keys"
  shows "map_of (environ g') k = map_of (environ g) k"
  using assms
  by (cases pc)
     (auto simp: os_Setenv_def emit_def logf_def update_conv' pg_keys_def
           simp del: Sprintf.simps split: option.splits if_splits)

lemma others_kept_step:
  assumes "others_kept env0 s"
  shows "others_kept env0 (step t s)"
proof (cases rule: step_cases[of t s])
  case Stay
  with assms show ?thesis by simp
next
  case Tick
  with assms show ?thesis by (simp add: others_kept_def)
next
  case (Main i c' g')
  have "map_of (environ g') k = map_of env0 k" if k: "k \<notin> pg_keys" for k
  proof -
    from assms k have "map_of (environ (glob s)) k = map_of env0 k"
      unfolding others_kept_def by blast
    with main_at_others[OF Main(2) k] show ?thesis by simp
  qed
  then show ?thesis
    unfolding Main(3) others_kept_def by simp
next
  case (Chain i c' g')
  from chain_at_frame[OF Chain(2)] have "environ g' = environ (glob s)" by simp
  with assms show ?thesis
    unfolding Chain(3) others_kept_def by simp
next
  case (Copy i)
  with assms show ?thesis by (simp add: others_kept_def)
qed

lemma main_at_export:
  assumes "main_at i pc c g = (c', g')" "mpc c = pc" "valid_creds (binding (req c))"
    and "exported_ok (exported pc) (binding (req c)) (map_of (environ g))"
  shows "exported_ok (exported (mpc c')) (binding (req c)) (map_of (environ g'))"
  using assms
  by (cases pc)
     (auto simp: exported_ok_def valid_creds_def os_Setenv_def emit_def logf_def update_conv'
           simp del: Sprintf.simps split: option.splits if_splits)

lemma main_at_enter:
  assumes "main_at i pc c g = (c', g')" "mpc c = pc" "holds_lock c'"
  shows "holds_lock c \<or> mpc c' = L34"
  using assms
  by (cases pc) (auto simp: holds_lock_def split: option.splits if_splits)

lemma owner_of_same_mpc:
  assumes "j < length cs" "mpc c' = mpc (cs ! j)"
  shows "owner_of i (cs[j := c']) = owner_of i cs"
proof -
  have "mpc (cs[j := c'] ! k) = mpc (cs ! k)" for k
    using assms by (cases "k = j") simp_all
  then show ?thesis
    by (simp add: owner_of_def holds_lock_def)
qed

lemma owner_of_self:
  assumes "i < length cs" "owner_of i (cs[i := c'])"
  shows "holds_lock c' \<or> owner_of i cs"
  using assms by (auto simp: owner_of_def)

lemma owner_of_other:
  assumes "j \<noteq> i" "j < length cs" "mpc c' \<noteq> L25" "\<not> holds_lock (cs ! i)"
  shows "\<not> owner_of i (cs[j := c'])"
  using assms by (auto simp: owner_of_def)

lemma export_inv_step:
  assumes L: "lock_inv s" and i: "i < length (calls s)" and r: "req (calls s ! i) = r"
    and v: "valid_creds (binding r)" and E: "export_inv i (binding r) s"
  shows "export_inv i (binding r) (step t s)"
proof (cases rule: step_cases[of t s])
  case Stay
  with E show ?thesis by simp
next
  case Tick
  with E show ?thesis by (simp add: export_inv_def)
next
  case (Main j c' g')
  show ?thesis
  proof (cases "j = i")
    case True
    note st = Main(2)[unfolded True]
    have "exported_ok (exported (mpc c')) (binding r) (map_of (environ g'))"
      if own: "owner_of i ((calls s)[i := c'])"
    proof -
      from owner_of_self[OF i own] have "holds_lock c' \<or> owner_of i (calls s)" .
      with main_at_enter[OF st refl]
      have "exported (mpc c') = 0 \<or> owner_of i (calls s)"
        by (auto simp: owner_of_def)
      then show ?thesis
      proof
        assume "exported (mpc c') = 0"
        then show ?thesis by (simp add: exported_ok_def)
      next
        assume "owner_of i (calls s)"
        with E have "exported_ok (exported (mpc (calls s ! i))) (binding r) (map_of (environ (glob s)))"
          by (simp add: export_inv_def)
        with main_at_export[OF st refl] v r show ?thesis by simp
      qed
    qed
    with i True show ?thesis
      unfolding Main(3) export_inv_def by simp
  next
    case False
    from main_at_lock[OF Main(2) refl]
    have "(c' = calls s ! j \<and> g' = glob s) \<or>
          (mpc c' \<noteq> L25 \<and> (pgMutex (glob s) = None \<or> holds_lock (calls s ! j)))"
      by (auto simp: holds_lock_def)
    then show ?thesis
    proof
      assume "c' = calls s ! j \<and> g' = glob s"
      with E show ?thesis
        unfolding Main(3) by (simp add: list_update_id export_inv_def)
    next
      assume a: "mpc c' \<noteq> L25 \<and> (pgMutex (glob s) = None \<or> holds_lock (calls s ! j))"
      have "\<not> holds_lock (calls s ! i)"
      proof
        assume h: "holds_lock (calls s ! i)"
        from lock_inv_holds[OF L i h] have m: "pgMutex (glob s) = Some i" .
        with a have "holds_lock (calls s ! j)" by simp
        from lock_inv_holds[OF L Main(1) this] m False show False by simp
      qed
      from owner_of_other[OF False Main(1) _ this, of c'] a
      have "\<not> owner_of i ((calls s)[j := c'])" by simp
      then show ?thesis
        unfolding Main(3) export_inv_def by simp
    qed
  qed
next
  case (Chain j c' g')
  from chain_at_frame[OF Chain(2)] chain_at_lock[OF Chain(2)]
  have same: "environ g' = environ (glob s)" "mpc c' = mpc (calls s ! j)"
    by simp_all
  have "mpc ((calls s)[j := c'] ! i) = mpc (calls s ! i)"
    using same(2) by (cases "i = j") (simp_all add: Chain(1))
  with E owner_of_same_mpc[OF Chain(1) same(2), of i] same(1) show ?thesis
    unfolding Chain(3) export_inv_def by simp
next
  case (Copy j)
  have same: "mpc (copy_at (ppc (calls s ! j)) (calls s ! j)) = mpc (calls s ! j)"
    by (rule copy_at_mpc)
  have "mpc ((calls s)[j := copy_at (ppc (calls s ! j)) (calls s ! j)] ! i) = mpc (calls s ! i)"
    using same by (cases "i = j") (simp_all add: Copy(1))
  with E owner_of_same_mpc[OF Copy(1) same, of i] show ?thesis
    unfolding Copy(2) export_inv_def by simp
qed

lemma child_env_eq:
  assumes "exported_ok 4 b m" "\<And>k. k \<notin> pg_keys \<Longrightarrow> m k = map_of env0 k"
  shows "m = child_env env0 b"
proof (rule ext)
  fix k
  show "m k = child_env env0 b k"
  proof (cases "k \<in> pg_keys")
    case True
    with assms(1) show ?thesis
      by (auto simp: pg_keys_def exported_ok_def child_env_def)
  next
    case False
    with assms(2)[OF False] show ?thesis
      by (simp add: pg_keys_def child_env_def)
  qed
qed

lemma main_at_started:
  assumes "main_at i pc c g = (c', g')"
  shows "list_all (start_env_ok m) (emitted g g') \<or>
         (pc = L66 \<and> emitted g g' = [Started (command (binding (req c))) (environ g)])"
  using assms
  by (cases pc)
     (auto simp: emitted_same emitted_emit emitted_logf emitted_Setenv emitted_unlock
           simp del: Sprintf.simps split: option.splits if_splits)

lemma chain_at_started:
  assumes "chain_at i pc c g = (c', g')"
  shows "list_all (start_env_ok m) (emitted g g')"
  using assms
  by (cases pc)
     (auto simp: emitted_same emitted_emit emitted_logf Let_def
           simp del: Sprintf.simps split: option.splits if_splits)

lemma starts_ok_step:
  assumes i: "i < length (calls s)" and r: "req (calls s ! i) = r"
    and K: "others_kept env0 s" and E: "export_inv i (binding r) s"
    and S: "starts_ok i (child_env env0 (binding r)) s"
  shows "starts_ok i (child_env env0 (binding r)) (step t s)"
proof (cases rule: step_cases[of t s])
  case Stay
  with S show ?thesis by simp
next
  case Tick
  with S show ?thesis by (simp add: starts_ok_def)
next
  case (Main j c' g')
  from main_at_frame[OF Main(2)]
  have tr: "trace g' = trace (glob s) @ map (\<lambda>e. (clock (glob s), j, e)) (emitted (glob s) g')"
    by simp
  show ?thesis
  proof (cases "j = i")
    case False
    with S show ?thesis
      unfolding Main(3) starts_ok_def by (simp add: tr events_in_append)
  next
    case True
    note st = Main(2)[unfolded True]
    have "list_all (start_env_ok (child_env env0 (binding r))) (emitted (glob s) g')"
      using main_at_started[OF st, of "child_env env0 (binding r)"]
    proof
      assume "list_all (start_env_ok (child_env env0 (binding r))) (emitted (glob s) g')"
      then show ?thesis .
    next
      assume a: "mpc (calls s ! i) = L66 \<and>
                 emitted (glob s) g' = [Started (command (binding (req (calls s ! i)))) (environ (glob s))]"
      then have "owner_of i (calls s)"
        by (simp add: owner_of_def holds_lock_def)
      with E a have 4: "exported_ok 4 (binding r) (map_of (environ (glob s)))"
        by (simp add: export_inv_def)
      from K have "\<And>k. k \<notin> pg_keys \<Longrightarrow> map_of (environ (glob s)) k = map_of env0 k"
        unfolding others_kept_def by blast
      from child_env_eq[OF 4 this] a show ?thesis
        by simp
    qed
    with S True show ?thesis
      unfolding Main(3) starts_ok_def by (simp add: tr events_in_append)
  qed
next
  case (Chain j c' g')
  from chain_at_frame[OF Chain(2)]
  have tr: "trace g' = trace (glob s) @ map (\<lambda>e. (clock (glob s), j, e)) (emitted (glob s) g')"
    by simp
  from chain_at_started[OF Chain(2)] S show ?thesis
    unfolding Chain(3) starts_ok_def by (simp add: tr events_in_append)
next
  case (Copy j)
  with S show ?thesis by (simp add: starts_ok_def)
qed

lemma req_step:
  assumes "i < length (calls s)"
  shows "req (calls (step t s) ! i) = req (calls s ! i)"
proof (cases rule: step_cases[of t s])
  case Stay
  then show ?thesis by simp
next
  case Tick
  then show ?thesis by simp
next
  case (Main j c' g')
  from main_at_frame[OF Main(2)] assms show ?thesis
    unfolding Main(3) by (cases "i = j") simp_all
next
  case (Chain j c' g')
  from chain_at_frame[OF Chain(2)] assms show ?thesis
    unfolding Chain(3) by (cases "i = j") simp_all
next
  case (Copy j)
  with assms show ?thesis
    by (cases "i = j") (simp_all add: copy_at_req)
qed

lemma env_inv_step:
  assumes v: "valid_creds (binding r)" and I: "env_inv env0 r i s"
  shows "env_inv env0 r i (step t s)"
proof -
  from I have i: "i < length (calls s)" and r: "req (calls s ! i) = r" and L: "lock_inv s"
    and K: "others_kept env0 s" and E: "export_inv i (binding r) s"
    and S: "starts_ok i (child_env env0 (binding r)) s"
    unfolding env_inv_def by simp_all
  from i r req_step[OF i, of t] lock_inv_step[OF L, of t] others_kept_step[OF K, of t]
    export_inv_step[OF L i r v E, of t] starts_ok_step[OF i r K E S, of t]
  show ?thesis
    unfolding env_inv_def by (simp add: length_calls_step)
qed

lemma env_inv_exec:
  assumes "i < length rs" "valid_creds (binding (rs ! i))"
  shows "env_inv env0 (rs ! i) i (exec sched (init env0 rs))"
proof (rule exec_invariant[where P = "env_inv env0 (rs ! i) i"])
  from assms(1) show "env_inv env0 (rs ! i) i (init env0 rs)"
    unfolding env_inv_def
    by (simp add: lock_inv_init others_kept_def export_inv_def exported_ok_def starts_ok_def
          events_in_def)
       (simp add: init_def new_call_def)
next
  fix t s
  assume "env_inv env0 (rs ! i) i s"
  then show "env_inv env0 (rs ! i) i (step t s)"
    by (rule env_inv_step[OF assms(2)])
qed

lemma others_kept_exec: "others_kept env0 (exec sched (init env0 rs))"
proof (rule exec_invariant[where P = "others_kept env0"])
  show "others_kept env0 (init env0 rs)"
    by (simp add: others_kept_def init_def)
next
  fix t s
  assume "others_kept env0 s"
  then show "others_kept env0 (step t s)"
    by (rule others_kept_step)
qed

subsection \<open>C3: the connection parameters in the environment\<close>

text \<open>
  C3, as the code has it. \<^verbatim>\<open>Backup\<close> writes the connection parameters into the
  environment of the host process and touches no other variable. The child process gets
  no environment of its own and inherits the host's: for a binding whose parameters
  \<^verbatim>\<open>os.Setenv\<close> accepts, the mutex makes the four variables hold the parameters of
  this call when its process is started, whatever the other calls do. The parameters stay
  in the host's environment when \<^verbatim>\<open>Backup\<close> has returned: while no other call has
  locked the mutex, the environment is the initial one with the parameters of this call.
\<close>

theorem environment_exported:
  assumes "i < length rs" and "valid_creds (binding (rs ! i))"
  shows "(\<forall>cmd env. Started cmd env \<in> set (events_of i (exec sched (init env0 rs))) \<longrightarrow>
            map_of env = child_env env0 (binding (rs ! i))) \<and>
         (mpc (calls (exec sched (init env0 rs)) ! i) = Returned \<and>
          (\<forall>j < length rs. j \<noteq> i \<longrightarrow> mpc (calls (exec sched (init env0 rs)) ! j) = L25) \<longrightarrow>
            map_of (environ (glob (exec sched (init env0 rs)))) = child_env env0 (binding (rs ! i))) \<and>
         (\<forall>k. k \<notin> pg_keys \<longrightarrow>
            map_of (environ (glob (exec sched (init env0 rs)))) k = map_of env0 k)"
proof (intro conjI allI impI)
  fix cmd env
  assume "Started cmd env \<in> set (events_of i (exec sched (init env0 rs)))"
  with env_inv_exec[OF assms, of env0 sched]
  have "start_env_ok (child_env env0 (binding (rs ! i))) (Started cmd env)"
    unfolding env_inv_def starts_ok_def events_of_events_in list_all_iff by blast
  then show "map_of env = child_env env0 (binding (rs ! i))"
    by simp
next
  assume a: "mpc (calls (exec sched (init env0 rs)) ! i) = Returned \<and>
             (\<forall>j < length rs. j \<noteq> i \<longrightarrow> mpc (calls (exec sched (init env0 rs)) ! j) = L25)"
  then have "owner_of i (calls (exec sched (init env0 rs)))"
    by (simp add: owner_of_def length_calls_init)
  with env_inv_exec[OF assms, of env0 sched] a
  have 4: "exported_ok 4 (binding (rs ! i)) (map_of (environ (glob (exec sched (init env0 rs)))))"
    by (simp add: env_inv_def export_inv_def)
  from others_kept_exec[of env0 sched rs]
  have "\<And>k. k \<notin> pg_keys \<Longrightarrow>
          map_of (environ (glob (exec sched (init env0 rs)))) k = map_of env0 k"
    unfolding others_kept_def by blast
  from child_env_eq[OF 4 this]
  show "map_of (environ (glob (exec sched (init env0 rs)))) = child_env env0 (binding (rs ! i))" .
next
  fix k
  assume "k \<notin> pg_keys"
  with others_kept_exec[of env0 sched rs]
  show "map_of (environ (glob (exec sched (init env0 rs)))) k = map_of env0 k"
    unfolding others_kept_def by blast
qed

theorem environment_exported_witness:
  "map_of [(''PGUSER'', ''admin''), (''PGPASSWORD'', ''s3cret''), (''PGHOST'', ''db.local''),
           (''PGPORT'', [])] = child_env [] (binding ([orders_ok, bare_ok] ! 0)) \<and>
   map_of (environ (glob (exec sched_in_order (init [] [orders_ok, bare_ok])))) =
     child_env [] (binding ([orders_ok, bare_ok] ! 0)) \<and>
   map_of (environ (glob (exec sched_in_order (init [] [orders_ok, bare_ok])))) ''HOME'' =
     map_of [] ''HOME''"
proof -
  have 1: "(0::nat) < length [orders_ok, bare_ok]" by simp
  have 2: "valid_creds (binding ([orders_ok, bare_ok] ! 0))" by code_simp
  have 3: "Started [''pg_dump'', ''orders'', ''-C'', ''-c'', ''--no-password'']
             [(''PGUSER'', ''admin''), (''PGPASSWORD'', ''s3cret''), (''PGHOST'', ''db.local''),
              (''PGPORT'', [])]
           \<in> set (events_of 0 (exec sched_in_order (init [] [orders_ok, bare_ok])))"
    by code_simp
  have 4: "mpc (calls (exec sched_in_order (init [] [orders_ok, bare_ok])) ! 0) = Returned"
    by code_simp
  have 5: "mpc (calls (exec sched_in_order (init [] [orders_ok, bare_ok])) ! 1) = L25"
    by code_simp
  have 6: "\<forall>j < length [orders_ok, bare_ok]. j \<noteq> 0 \<longrightarrow>
             mpc (calls (exec sched_in_order (init [] [orders_ok, bare_ok])) ! j) = L25"
  proof (intro allI impI)
    fix j :: nat
    assume "j < length [orders_ok, bare_ok]" "j \<noteq> 0"
    then have "j = 1" by simp
    with 5 show "mpc (calls (exec sched_in_order (init [] [orders_ok, bare_ok])) ! j) = L25"
      by simp
  qed
  have 7: "''HOME'' \<notin> pg_keys" by (simp add: pg_keys_def)
  note th = environment_exported[OF 1 2, of sched_in_order "[]"]
  from th[THEN conjunct1, rule_format, OF 3]
       th[THEN conjunct2, THEN conjunct1, rule_format, OF conjI[OF 4 6]]
       th[THEN conjunct2, THEN conjunct2, rule_format, OF 7]
  show ?thesis by blast
qed

text \<open>
  The claim as written fails. After a call for a binding with user \<^verbatim>\<open>admin\<close> and
  password \<^verbatim>\<open>s3cret\<close> has returned, the environment of the host process, empty
  before, holds its four variables; and a second call that has just locked the mutex
  finds the password of the first in the environment.
\<close>

theorem environment_exported_counterexample:
  "environ (glob (init [] [orders_ok, bare_ok])) = [] \<and>
   mpc (calls (exec sched_in_order (init [] [orders_ok, bare_ok])) ! 0) = Returned \<and>
   environ (glob (exec sched_in_order (init [] [orders_ok, bare_ok]))) =
     [(''PGUSER'', ''admin''), (''PGPASSWORD'', ''s3cret''), (''PGHOST'', ''db.local''),
      (''PGPORT'', [])] \<and>
   mpc (calls (exec (sched_in_order @ [Main 1]) (init [] [orders_ok, bare_ok])) ! 1) = L34 \<and>
   map_of (environ (glob (exec (sched_in_order @ [Main 1]) (init [] [orders_ok, bare_ok]))))
     ''PGPASSWORD'' = Some ''s3cret''"
  by code_simp

end
